theory Spec2Isabelle
  imports
    Complex_Main
    "HOL-Library.Word"
    "HOL-Library.Log_Nat"
    "HOL-Library.Char_ord"
    "HOL-Library.List_Lexorder"
begin

section \<open>JavaScript numbers\<close>

text \<open>
  Every arithmetic value of \<^verbatim>\<open>conversion-worker.js\<close> is a JavaScript number, that is an
  IEEE 754 binary64 value. A finite double is represented by the rational it denotes;
  \<open>NaN\<close> is what arithmetic makes of \<^verbatim>\<open>undefined\<close>, the result of reading a typed
  array outside its range. Infinities do not arise: the only divisors of the program are
  the constant 255, an \<^verbatim>\<open>outA\<close> that passed the test \<^verbatim>\<open>outA > 0\<close>, and a delay
  that \<^verbatim>\<open>|| 100\<close> made nonzero.
\<close>

datatype num = NaN | Fin rat

text \<open>\<open>ilog2 x\<close> is the binary exponent of a positive rational: \<open>2^e \<le> x < 2^(e+1)\<close>.\<close>

definition ilog2 :: "rat \<Rightarrow> int" where
  "ilog2 x = (case quotient_of x of (p, q) \<Rightarrow>
     (let k = bitlen p - bitlen q in if 2 powi k \<le> x then k else k - 1))"

text \<open>Rounding to the nearest integer, ties to the even one.\<close>

definition rne :: "rat \<Rightarrow> int" where
  "rne t = (let f = \<lfloor>t\<rfloor>; r = t - of_int f in
     if r < 1 / 2 then f else if 1 / 2 < r then f + 1 else if even f then f else f + 1)"

text \<open>
  \<open>fl\<close> rounds an exact result to binary64: 53 significant bits, round to nearest, ties to
  even; \<open>fexp x\<close> is the exponent of the last kept bit, fixed at \<open>-1074\<close> in the
  subnormal range. Overflow to infinity
  (results of magnitude \<open>2^1024\<close> and more) is outside the model; the program's values are
  quotients and sums of products of at most three bytes.
\<close>

definition fexp :: "rat \<Rightarrow> int" where
  "fexp x = max (ilog2 \<bar>x\<bar> - 52) (- 1074)"

definition fl :: "rat \<Rightarrow> rat" where
  "fl x = (if x = 0 then 0 else
     (let e = fexp x in of_int (rne (x / 2 powi e)) * 2 powi e))"

fun fadd :: "num \<Rightarrow> num \<Rightarrow> num" where
  "fadd (Fin a) (Fin b) = Fin (fl (a + b))"
| "fadd _ _ = NaN"

fun fsub :: "num \<Rightarrow> num \<Rightarrow> num" where
  "fsub (Fin a) (Fin b) = Fin (fl (a - b))"
| "fsub _ _ = NaN"

fun fmul :: "num \<Rightarrow> num \<Rightarrow> num" where
  "fmul (Fin a) (Fin b) = Fin (fl (a * b))"
| "fmul _ _ = NaN"

text \<open>A zero divisor never reaches a division of the program (see above); it is mapped to \<open>NaN\<close>.\<close>

fun fdiv :: "num \<Rightarrow> num \<Rightarrow> num" where
  "fdiv (Fin a) (Fin b) = (if b = 0 then NaN else Fin (fl (a / b)))"
| "fdiv _ _ = NaN"

text \<open>The test \<^verbatim>\<open>v > 0\<close>: false on \<open>NaN\<close>.\<close>

fun gt0 :: "num \<Rightarrow> bool" where
  "gt0 (Fin a) = (0 < a)"
| "gt0 NaN = False"

text \<open>Truncation toward zero, the first step of \<^verbatim>\<open>ToInt32\<close> and \<^verbatim>\<open>ToUint8\<close>.\<close>

definition trunc :: "rat \<Rightarrow> int" where
  "trunc q = (if 0 \<le> q then \<lfloor>q\<rfloor> else \<lceil>q\<rceil>)"

text \<open>\<^verbatim>\<open>v | 0\<close>: \<^verbatim>\<open>ToInt32\<close> of the operand (\<open>NaN\<close> becomes 0).\<close>

fun bor0 :: "num \<Rightarrow> num" where
  "bor0 NaN = Fin 0"
| "bor0 (Fin q) = (let n = trunc q mod 2 ^ 32 in Fin (of_int (if 2 ^ 31 \<le> n then n - 2 ^ 32 else n)))"

text \<open>\<^verbatim>\<open>Math.round\<close>: the nearest integer, ties toward \<open>+\<infinity>\<close>; exact on the double.\<close>

fun Math_round :: "num \<Rightarrow> num" where
  "Math_round NaN = NaN"
| "Math_round (Fin q) = Fin (of_int \<lfloor>q + 1 / 2\<rfloor>)"

section \<open>Byte buffers\<close>

text \<open>
  \<^verbatim>\<open>canvas\<close> and the frame data are Node \<^verbatim>\<open>Buffer\<close>s (\<^verbatim>\<open>Uint8Array\<close>s): a read outside the
  range gives \<^verbatim>\<open>undefined\<close>, a write outside the range is dropped, and a stored number
  is converted by \<^verbatim>\<open>ToUint8\<close> (truncate, then modulo 256; \<open>NaN\<close> becomes 0).
  Sizes, coordinates and indices are natural numbers: in the program they are integers
  far below \<open>2^53\<close>, where the arithmetic of doubles is exact.
\<close>

type_synonym byte = "8 word"
type_synonym buffer = "byte list"

definition num_of_byte :: "byte \<Rightarrow> num" where
  "num_of_byte b = Fin (of_nat (unat b))"

definition ToUint8 :: "num \<Rightarrow> byte" where
  "ToUint8 v = (case v of NaN \<Rightarrow> 0 | Fin q \<Rightarrow> of_int (trunc q))"

definition buf_get :: "buffer \<Rightarrow> nat \<Rightarrow> num" where
  "buf_get buf i = (if i < length buf then num_of_byte (buf ! i) else NaN)"

definition buf_set :: "buffer \<Rightarrow> nat \<Rightarrow> num \<Rightarrow> buffer" where
  "buf_set buf i v = (if i < length buf then buf[i := ToUint8 v] else buf)"

section \<open>The image and its frames\<close>

text \<open>
  The fields of \<^verbatim>\<open>img.anim.frames[i]\<close> that the worker reads. \<open>None\<close> is a missing
  (\<^verbatim>\<open>undefined\<close>) field; \<open>js_or v d\<close> is \<^verbatim>\<open>v || d\<close> on such a field, which takes \<open>d\<close>
  for a missing value and for 0.
\<close>

record fmeta =
  f_x :: "nat option"
  f_y :: "nat option"
  f_width :: nat
  f_height :: nat
  f_blend :: bool
  f_dispose :: bool
  f_delay :: "nat option"

definition js_or :: "nat option \<Rightarrow> nat \<Rightarrow> nat" where
  "js_or v d = (case v of None \<Rightarrow> d | Some n \<Rightarrow> if n = 0 then d else n)"

type_synonym rgba = "byte \<times> byte \<times> byte \<times> byte"

text \<open>
  \<^verbatim>\<open>img\<close>: \<open>bgColor\<close> is \<open>None\<close> when \<^verbatim>\<open>img.anim\<close> or \<^verbatim>\<open>img.anim.bgColor\<close> is missing;
  \<open>frames\<close> is \<^verbatim>\<open>img.anim.frames\<close>, the array that \<^verbatim>\<open>img.frames\<close> returns as well.
\<close>

record image =
  hasAnim :: bool
  img_width :: nat
  img_height :: nat
  bgColor :: "rgba option"
  frames :: "fmeta list"

section \<open>Compositing one patch (lines 64 to 102)\<close>

text \<open>The body of the inner loop for \<^verbatim>\<open>blend === false\<close> (lines 69 to 72).\<close>

definition copy_pixel :: "buffer \<Rightarrow> buffer \<Rightarrow> nat \<Rightarrow> nat \<Rightarrow> buffer" where
  "copy_pixel canvas rgba si di =
     (let c0 = buf_set canvas (di + 0) (buf_get rgba (si + 0));
          c1 = buf_set c0 (di + 1) (buf_get rgba (si + 1));
          c2 = buf_set c1 (di + 2) (buf_get rgba (si + 2))
      in buf_set c2 (di + 3) (buf_get rgba (si + 3)))"

text \<open>The untruncated \<^verbatim>\<open>outA\<close> of line 90 and the value stored in a colour channel (lines 94 to 96).\<close>

definition outA_of :: "num \<Rightarrow> num \<Rightarrow> num" where
  "outA_of sa da = fadd sa (fdiv (fmul da (fsub (Fin 255) sa)) (Fin 255))"

definition outC_of :: "num \<Rightarrow> num \<Rightarrow> num \<Rightarrow> num \<Rightarrow> num" where
  "outC_of sc sa dc da =
     bor0 (fdiv (fadd (fmul sc sa) (fdiv (fmul (fmul dc da) (fsub (Fin 255) sa)) (Fin 255)))
                (outA_of sa da))"

text \<open>The body of the inner loop of the blending branch (lines 80 to 99).\<close>

definition blend_pixel :: "buffer \<Rightarrow> buffer \<Rightarrow> nat \<Rightarrow> nat \<Rightarrow> buffer" where
  "blend_pixel canvas rgba si di =
     (let sa = buf_get rgba (si + 3) in
      if sa = Fin 255 then
        (let c0 = buf_set canvas (di + 0) (buf_get rgba (si + 0));
             c1 = buf_set c0 (di + 1) (buf_get rgba (si + 1));
             c2 = buf_set c1 (di + 2) (buf_get rgba (si + 2))
         in buf_set c2 (di + 3) (Fin 255))
      else if sa = Fin 0 then canvas
      else
        (let da = buf_get canvas (di + 3);
             outA = outA_of sa da;
             sr = buf_get rgba (si + 0); sg = buf_get rgba (si + 1); sb = buf_get rgba (si + 2);
             dr = buf_get canvas (di + 0); dg = buf_get canvas (di + 1); db = buf_get canvas (di + 2)
         in if gt0 outA then
              (let c0 = buf_set canvas (di + 0) (outC_of sr sa dr da);
                   c1 = buf_set c0 (di + 1) (outC_of sg sa dg da);
                   c2 = buf_set c1 (di + 2) (outC_of sb sa db da)
               in buf_set c2 (di + 3) (bor0 outA))
            else canvas))"

text \<open>The two loop nests over the patch, with the source and destination indices of lines 67, 68, 78 and 79.\<close>

definition draw_patch ::
  "buffer \<Rightarrow> nat \<Rightarrow> nat \<Rightarrow> nat \<Rightarrow> nat \<Rightarrow> nat \<Rightarrow> bool \<Rightarrow> buffer \<Rightarrow> buffer" where
  "draw_patch canvas width x0 y0 fw fh blend rgba =
     (if \<not> blend then
        fold (\<lambda>y. fold (\<lambda>x c.
          copy_pixel c rgba ((y * fw + x) * 4) (((y0 + y) * width + (x0 + x)) * 4)) [0..<fw]) [0..<fh] canvas
      else
        fold (\<lambda>y. fold (\<lambda>x c.
          blend_pixel c rgba ((y * fw + x) * 4) (((y0 + y) * width + (x0 + x)) * 4)) [0..<fw]) [0..<fh] canvas)"

section \<open>Background fill and dispose (lines 44 to 51 and 110 to 121)\<close>

definition fill_pixel :: "buffer \<Rightarrow> nat \<Rightarrow> rgba \<Rightarrow> buffer" where
  "fill_pixel canvas p bg = (case bg of (r, g, b, a) \<Rightarrow>
     (let c0 = buf_set canvas (p + 0) (num_of_byte r);
          c1 = buf_set c0 (p + 1) (num_of_byte g);
          c2 = buf_set c1 (p + 2) (num_of_byte b)
      in buf_set c2 (p + 3) (num_of_byte a)))"

definition init_canvas :: "nat \<Rightarrow> nat \<Rightarrow> rgba \<Rightarrow> buffer" where
  "init_canvas width height bg =
     fold (\<lambda>i c. fill_pixel c (i * 4) bg) [0..<width * height] (replicate (width * height * 4) 0)"

definition clear_region ::
  "buffer \<Rightarrow> nat \<Rightarrow> nat \<Rightarrow> nat \<Rightarrow> nat \<Rightarrow> nat \<Rightarrow> rgba \<Rightarrow> buffer" where
  "clear_region canvas width x0 y0 fw fh bg =
     fold (\<lambda>y. fold (\<lambda>x c. fill_pixel c (((y0 + y) * width * 4 + x0 * 4) + x * 4) bg) [0..<fw])
       [0..<fh] canvas"

section \<open>Snapshot names (lines 104 and 107)\<close>

definition digit_char :: "nat \<Rightarrow> char" where
  "digit_char d = char_of (48 + d)"

fun toString :: "nat \<Rightarrow> string" where
  "toString n = (if n < 10 then [digit_char n] else toString (n div 10) @ [digit_char (n mod 10)])"

definition padStart :: "nat \<Rightarrow> char \<Rightarrow> string \<Rightarrow> string" where
  "padStart n c s = replicate (n - length s) c @ s"

definition frameIndex :: "nat \<Rightarrow> string" where
  "frameIndex i = padStart 5 (CHR ''0'') (toString i)"

text \<open>The file name inside \<^verbatim>\<open>tempDir\<close>.\<close>

definition outPath :: "nat \<Rightarrow> string" where
  "outPath i = ''frame_'' @ frameIndex i @ ''.png''"

section \<open>The frame loop (lines 55 to 127)\<close>

record png =
  png_width :: nat
  png_height :: nat
  png_data :: buffer

text \<open>
  One iteration, from the decoded frame data on: the patch is drawn at the doubled
  offset, the canvas is copied into the PNG that is written under \<open>outPath i\<close>, and then
  the region is cleared for a frame with \<^verbatim>\<open>dispose === true\<close>. The result is the written
  file and the canvas that the next iteration starts from.
\<close>

definition process_frame ::
  "nat \<Rightarrow> nat \<Rightarrow> rgba \<Rightarrow> nat \<Rightarrow> fmeta \<Rightarrow> buffer \<Rightarrow> buffer \<Rightarrow> (string \<times> png) \<times> buffer" where
  "process_frame width height bg i fm rgba canvas =
     (let x0 = js_or (f_x fm) 0 * 2;
          y0 = js_or (f_y fm) 0 * 2;
          fw = f_width fm;
          fh = f_height fm;
          canvas1 = draw_patch canvas width x0 y0 fw fh (f_blend fm) rgba;
          snapshot = (outPath i, \<lparr>png_width = width, png_height = height, png_data = canvas1\<rparr>);
          canvas2 = (if f_dispose fm then clear_region canvas1 width x0 y0 fw fh bg else canvas1)
      in (snapshot, canvas2))"

text \<open>
  A rejected \<^verbatim>\<open>getFrameData(i)\<close> leaves the \<^verbatim>\<open>try\<close> block: the worker logs the error and
  exits with code 1, whatever it has written so far.
\<close>

datatype error = WorkerError

fun frame_loop ::
  "nat \<Rightarrow> nat \<Rightarrow> rgba \<Rightarrow> (nat \<Rightarrow> error + buffer) \<Rightarrow> nat \<Rightarrow> fmeta list \<Rightarrow> buffer
    \<Rightarrow> error + (string \<times> png) list" where
  "frame_loop width height bg getFrameData i [] canvas = Inr []"
| "frame_loop width height bg getFrameData i (fm # fms) canvas =
     (case getFrameData i of
        Inl e \<Rightarrow> Inl e
      | Inr rgba \<Rightarrow>
          (case process_frame width height bg i fm rgba canvas of
             (snapshot, canvas2) \<Rightarrow>
               (case frame_loop width height bg getFrameData (Suc i) fms canvas2 of
                  Inl e \<Rightarrow> Inl e
                | Inr rest \<Rightarrow> Inr (snapshot # rest))))"

section \<open>The frame rate (lines 131 to 135) and the whole conversion\<close>

definition fps_of :: "image \<Rightarrow> num" where
  "fps_of img =
     (if hasAnim img \<and> 0 < length (frames img) then
        (let avgDelay = js_or (f_delay (frames img ! 0)) 100
         in Math_round (fdiv (Fin 1000) (Fin (of_nat avgDelay))))
      else Fin 10)"

text \<open>
  What the worker hands to the encoder: the files of \<^verbatim>\<open>tempDir\<close> and the frame rate. A
  static image is copied as it is under the name of frame 0.
\<close>

datatype artifact = InputCopy | Png png

definition convert :: "image \<Rightarrow> (nat \<Rightarrow> error + buffer) \<Rightarrow> error + ((string \<times> artifact) list \<times> num)" where
  "convert img getFrameData =
     (if \<not> hasAnim img then Inr ([(''frame_00000.png'', InputCopy)], fps_of img)
      else
        (let width = img_width img;
             height = img_height img;
             bg = (case bgColor img of Some c \<Rightarrow> c | None \<Rightarrow> (255, 255, 255, 255));
             canvas = init_canvas width height bg
         in case frame_loop width height bg getFrameData 0 (frames img) canvas of
              Inl e \<Rightarrow> Inl e
            | Inr snapshots \<Rightarrow> Inr (map (\<lambda>(name, p). (name, Png p)) snapshots, fps_of img)))"

section \<open>Notions used to state the properties\<close>

text \<open>
  One iteration of the inner loops of \<open>draw_patch\<close>, as a function of the patch position
  \<open>(y, x)\<close>.
\<close>

definition patch_step ::
  "bool \<Rightarrow> buffer \<Rightarrow> nat \<Rightarrow> nat \<Rightarrow> nat \<Rightarrow> nat \<Rightarrow> nat \<times> nat \<Rightarrow> buffer \<Rightarrow> buffer" where
  "patch_step blend rgba width x0 y0 fw = (\<lambda>(y, x) c.
     if blend then blend_pixel c rgba ((y * fw + x) * 4) (((y0 + y) * width + (x0 + x)) * 4)
     else copy_pixel c rgba ((y * fw + x) * 4) (((y0 + y) * width + (x0 + x)) * 4))"

text \<open>
  The region \<open>[x0, x0 + fw) \<times> [y0, y0 + fh)\<close> that a patch occupies; canvas pixel
  \<open>(X, Y)\<close> has its four bytes at index \<open>(Y * width + X) * 4\<close>.
\<close>

definition in_region :: "nat \<Rightarrow> nat \<Rightarrow> nat \<Rightarrow> nat \<Rightarrow> nat \<Rightarrow> nat \<Rightarrow> bool" where
  "in_region x0 y0 fw fh X Y = (x0 \<le> X \<and> X < x0 + fw \<and> y0 \<le> Y \<and> Y < y0 + fh)"

text \<open>
  The canvas that frame \<open>i\<close> of \<open>fms\<close> is composited onto: the initial canvas after the
  frames before it have been processed in order, dispose included. \<open>n\<close> is the index
  of the first frame of \<open>fms\<close> and \<open>data\<close> gives the decoded pixels of each frame.
\<close>

primrec canvas_before ::
  "nat \<Rightarrow> nat \<Rightarrow> rgba \<Rightarrow> (nat \<Rightarrow> buffer) \<Rightarrow> nat \<Rightarrow> fmeta list \<Rightarrow> buffer \<Rightarrow> nat \<Rightarrow> buffer" where
  "canvas_before width height bg data n fms canvas 0 = canvas"
| "canvas_before width height bg data n fms canvas (Suc i) =
     snd (process_frame width height bg (n + i) (fms ! i) (data (n + i))
            (canvas_before width height bg data n fms canvas i))"

text \<open>The number that a string of decimal digits denotes, and the digits themselves.\<close>

definition dec_value :: "string \<Rightarrow> nat" where
  "dec_value s = foldl (\<lambda>v c. v * 10 + (of_char c - 48)) 0 s"

definition is_digit :: "char \<Rightarrow> bool" where
  "is_digit c = (48 \<le> (of_char c :: nat) \<and> (of_char c :: nat) \<le> 57)"

section \<open>The formulas as the specification words them\<close>

text \<open>
  The specification's reading of the blend: every division an integer division. On the
  natural numbers truncation toward zero is \<open>div\<close>.
\<close>

definition spec_outA :: "nat \<Rightarrow> nat \<Rightarrow> nat" where
  "spec_outA sa da = sa + da * (255 - sa) div 255"

definition spec_outC :: "nat \<Rightarrow> nat \<Rightarrow> nat \<Rightarrow> nat \<Rightarrow> nat" where
  "spec_outC sc sa dc da = (sc * sa + dc * da * (255 - sa) div 255) div spec_outA sa da"

text \<open>
  The blend of a colour channel with exact divisions and no truncation is the quotient of
  these two numbers: \<open>(sc * sa + dc * da * (255 - sa) / 255) / (sa + da * (255 - sa) / 255)\<close>
  with numerator and denominator multiplied by 255.
\<close>

definition exact_num :: "nat \<Rightarrow> nat \<Rightarrow> nat \<Rightarrow> nat \<Rightarrow> nat" where
  "exact_num sc sa dc da = 255 * sc * sa + dc * da * (255 - sa)"

definition exact_den :: "nat \<Rightarrow> nat \<Rightarrow> nat" where
  "exact_den sa da = 255 * sa + da * (255 - sa)"

declare toString.simps [simp del]

section \<open>Rounding to binary64: exactness and monotonicity\<close>

lemma two_powi_less_iff: "(2::rat) powi m < 2 powi n \<longleftrightarrow> m < n"
proof
  assume a: "(2::rat) powi m < 2 powi n"
  show "m < n"
  proof (rule ccontr)
    assume "\<not> m < n"
    then have "n \<le> m" by simp
    then have "(2::rat) powi n \<le> 2 powi m" by (intro power_int_increasing) auto
    with a show False by simp
  qed
next
  assume "m < n"
  then show "(2::rat) powi m < 2 powi n" by (intro power_int_strict_increasing) auto
qed

lemma two_powi_le_iff: "(2::rat) powi m \<le> 2 powi n \<longleftrightarrow> m \<le> n"
  using two_powi_less_iff [of n m] by (auto simp: not_less [symmetric])

lemma bitlen_powi_bounds:
  assumes "0 < (p::int)"
  shows "(2::rat) powi (bitlen p - 1) \<le> of_int p" "of_int p < (2::rat) powi (bitlen p)"
proof -
  have b: "1 \<le> bitlen p" using assms by (auto simp: bitlen_alt_def)
  from bitlen_bounds [OF assms] have lo: "2 ^ nat (bitlen p - 1) \<le> p" and hi: "p < 2 ^ nat (bitlen p)"
    by auto
  have "(of_int (2 ^ nat (bitlen p - 1)) :: rat) \<le> of_int p"
    using lo by (simp only: of_int_le_iff)
  then show "(2::rat) powi (bitlen p - 1) \<le> of_int p"
    using b by (simp add: power_int_def)
  have "(of_int p :: rat) < of_int (2 ^ nat (bitlen p))"
    using hi by (simp only: of_int_less_iff)
  then show "of_int p < (2::rat) powi (bitlen p)"
    using b by (simp add: power_int_def)
qed

lemma ilog2_bounds:
  assumes "0 < x"
  shows "2 powi (ilog2 x) \<le> x" and "x < 2 powi (ilog2 x + 1)"
proof -
  obtain p q where pq: "quotient_of x = (p, q)" by (cases "quotient_of x")
  have q: "0 < q" using pq by (rule quotient_of_denom_pos)
  have x: "x = of_int p / of_int q" using pq by (rule quotient_of_div)
  have p: "0 < p" using assms q x by (simp add: zero_less_divide_iff)
  define k where "k = bitlen p - bitlen q"
  note bp = bitlen_powi_bounds [OF p] and bq = bitlen_powi_bounds [OF q]
  have qpos: "(0::rat) < of_int q" using q by simp
  have "x < 2 powi (bitlen p) / 2 powi (bitlen q - 1)"
    unfolding x using bp(2) bq(1) p
    by (intro frac_less) auto
  also have "\<dots> = 2 powi (bitlen p - (bitlen q - 1))"
    by (rule power_int_diff [symmetric]) simp
  finally have up: "x < 2 powi (k + 1)"
    by (simp add: k_def algebra_simps)
  have "2 powi (bitlen p - 1) / 2 powi (bitlen q) < x"
    unfolding x using bp(1) bq(2) qpos
    by (intro frac_less2) auto
  moreover have "(2::rat) powi (bitlen p - 1) / 2 powi (bitlen q) = 2 powi (bitlen p - 1 - bitlen q)"
    by (rule power_int_diff [symmetric]) simp
  ultimately have lo: "2 powi (k - 1) < x"
    by (simp add: k_def algebra_simps)
  have il: "ilog2 x = (if 2 powi k \<le> x then k else k - 1)"
    by (simp add: ilog2_def pq k_def Let_def)
  show "2 powi (ilog2 x) \<le> x" using lo by (simp add: il)
  show "x < 2 powi (ilog2 x + 1)" using up by (simp add: il)
qed

lemma ilog2_less: "0 < x \<Longrightarrow> x < 2 powi n \<Longrightarrow> ilog2 x < n"
proof -
  assume pos: "0 < x" and "x < 2 powi n"
  with ilog2_bounds(1) [OF pos] have "(2::rat) powi (ilog2 x) < 2 powi n" by simp
  then show ?thesis by (simp add: two_powi_less_iff)
qed

lemma ilog2_ge: "2 powi n \<le> x \<Longrightarrow> n \<le> ilog2 x"
proof -
  assume a: "2 powi n \<le> x"
  have pos: "0 < x" using a by (rule less_le_trans [rotated]) simp
  with ilog2_bounds(2) [OF pos] a have "(2::rat) powi n < 2 powi (ilog2 x + 1)" by simp
  then have "n < ilog2 x + 1" by (simp add: two_powi_less_iff)
  then show ?thesis by simp
qed


lemma rne_of_int: "rne (of_int n) = n"
  by (simp add: rne_def)

lemma rne_cases: "rne t = \<lfloor>t\<rfloor> \<or> rne t = \<lfloor>t\<rfloor> + 1"
  by (simp add: rne_def Let_def)

lemma rne_mono:
  assumes "t \<le> u"
  shows "rne t \<le> rne u"
proof -
  have fg: "\<lfloor>t\<rfloor> \<le> \<lfloor>u\<rfloor>" using assms by (rule floor_mono)
  show ?thesis
  proof (cases "\<lfloor>t\<rfloor> = \<lfloor>u\<rfloor>")
    case True
    then show ?thesis using assms by (auto simp: rne_def Let_def)
  next
    case False
    with fg have "\<lfloor>t\<rfloor> + 1 \<le> \<lfloor>u\<rfloor>" by simp
    then show ?thesis using rne_cases [of t] rne_cases [of u] by auto
  qed
qed

lemma rne_ge: "of_int n \<le> t \<Longrightarrow> n \<le> rne t"
  using rne_mono [of "of_int n" t] by (simp add: rne_of_int)

lemma rne_le: "t \<le> of_int n \<Longrightarrow> rne t \<le> n"
  using rne_mono [of t "of_int n"] by (simp add: rne_of_int)

lemma fl_alt: "x \<noteq> 0 \<Longrightarrow> fl x = of_int (rne (x / 2 powi fexp x)) * 2 powi fexp x"
  by (simp add: fl_def Let_def)

lemma fl_nonneg: "0 \<le> x \<Longrightarrow> 0 \<le> fl x"
proof (cases "x = 0")
  case True
  then show ?thesis by (simp add: fl_def)
next
  case False
  assume "0 \<le> x"
  then have "(of_int 0 :: rat) \<le> x / 2 powi fexp x" by simp
  then have "0 \<le> rne (x / 2 powi fexp x)" by (rule rne_ge)
  then show ?thesis using False by (simp add: fl_alt)
qed

lemma fl_exact:
  assumes m: "0 < m" "m < 2 ^ 53" and j: "- 1074 \<le> j"
  shows "fl (of_int m * 2 powi j) = of_int m * 2 powi j"
proof -
  define x :: rat where "x = of_int m * 2 powi j"
  have pos: "0 < x" using m by (simp add: x_def)
  have "(of_int m :: rat) < of_int (2 ^ 53)"
    using m(2) by (simp only: of_int_less_iff)
  also have "(of_int (2 ^ 53) :: rat) = 2 powi 53"
    by (simp only: of_int_power of_int_numeral power_int_numeral)
  finally have "x < 2 powi 53 * 2 powi j"
    unfolding x_def by (intro mult_strict_right_mono) simp_all
  also have "\<dots> = 2 powi (53 + j)"
    by (rule power_int_add [symmetric]) simp
  finally have "ilog2 x < 53 + j" using pos by (intro ilog2_less)
  then have e: "fexp x \<le> j" using j pos by (simp add: fexp_def)
  have "x / 2 powi fexp x = of_int m * 2 powi (j - fexp x)"
    by (simp add: x_def power_int_diff)
  also have "\<dots> = of_int (m * 2 ^ nat (j - fexp x))"
    using e by (simp add: power_int_def)
  finally have "rne (x / 2 powi fexp x) = m * 2 ^ nat (j - fexp x)"
    by (simp only: rne_of_int)
  then have "fl x = of_int m * 2 powi (j - fexp x) * 2 powi fexp x"
    using pos e by (simp add: fl_alt power_int_def)
  also have "\<dots> = x"
    by (simp add: x_def power_int_diff)
  finally show ?thesis by (simp add: x_def)
qed

lemma fl_of_nat: "n < 2 ^ 53 \<Longrightarrow> fl (of_nat n) = of_nat n"
proof (cases "n = 0")
  case True
  then show ?thesis by (simp add: fl_def)
next
  case False
  assume "n < 2 ^ 53"
  then have "int n < int (2 ^ 53)" by (simp only: of_nat_less_iff)
  then have "int n < 2 ^ 53" by (simp only: of_nat_power of_nat_numeral)
  with False show ?thesis using fl_exact [of "int n" 0] by simp
qed

lemma fl_le_pow:
  assumes pos: "0 < x" and lt: "x \<le> 2 powi n" and n: "fexp x \<le> n"
  shows "fl x \<le> 2 powi n"
proof -
  have "x / 2 powi fexp x \<le> 2 powi n / 2 powi fexp x"
    using lt by (intro divide_right_mono) auto
  also have "\<dots> = 2 powi (n - fexp x)" by (simp add: power_int_diff)
  also have "\<dots> = of_int (2 ^ nat (n - fexp x))" using n by (simp add: power_int_def)
  finally have "rne (x / 2 powi fexp x) \<le> 2 ^ nat (n - fexp x)" by (rule rne_le)
  then have "(of_int (rne (x / 2 powi fexp x)) :: rat) \<le> of_int (2 ^ nat (n - fexp x))"
    by (simp only: of_int_le_iff)
  then have "fl x \<le> of_int (2 ^ nat (n - fexp x)) * 2 powi fexp x"
    using pos by (simp add: fl_alt)
  also have "of_int (2 ^ nat (n - fexp x)) * 2 powi fexp x = (2::rat) powi (n - fexp x) * 2 powi fexp x"
    using n by (simp add: power_int_def)
  also have "\<dots> = 2 powi n" by (simp add: power_int_diff)
  finally show ?thesis .
qed

lemma fl_ge_pow:
  assumes ge: "2 powi n \<le> x" and n: "fexp x \<le> n"
  shows "2 powi n \<le> fl x"
proof -
  have pos: "0 < x" using ge by (rule less_le_trans [rotated]) simp
  have "2 powi n / 2 powi fexp x \<le> x / 2 powi fexp x"
    using ge by (intro divide_right_mono) auto
  moreover have "(2::rat) powi n / 2 powi fexp x = 2 powi (n - fexp x)" by (simp add: power_int_diff)
  moreover have "(2::rat) powi (n - fexp x) = of_int (2 ^ nat (n - fexp x))" using n by (simp add: power_int_def)
  ultimately have "of_int (2 ^ nat (n - fexp x)) \<le> x / 2 powi fexp x" by simp
  then have "2 ^ nat (n - fexp x) \<le> rne (x / 2 powi fexp x)" by (rule rne_ge)
  then have "(of_int (2 ^ nat (n - fexp x)) :: rat) \<le> of_int (rne (x / 2 powi fexp x))"
    by (simp only: of_int_le_iff)
  then have "of_int (2 ^ nat (n - fexp x)) * 2 powi fexp x \<le> fl x"
    using pos by (simp add: fl_alt)
  moreover have "of_int (2 ^ nat (n - fexp x)) * 2 powi fexp x = (2::rat) powi (n - fexp x) * 2 powi fexp x"
    using n by (simp add: power_int_def)
  moreover have "(2::rat) powi (n - fexp x) * 2 powi fexp x = 2 powi n" by (simp add: power_int_diff)
  ultimately show ?thesis by simp
qed

lemma fexp_mono:
  assumes "0 < x" "x \<le> y"
  shows "fexp x \<le> fexp y"
proof -
  have "2 powi (ilog2 x) \<le> y" using ilog2_bounds(1) [OF assms(1)] assms(2) by simp
  then have "ilog2 x \<le> ilog2 y" by (rule ilog2_ge)
  then show ?thesis using assms by (simp add: fexp_def)
qed

lemma fl_mono:
  assumes "0 \<le> x" "x \<le> y"
  shows "fl x \<le> fl y"
proof (cases "x = 0")
  case True
  then show ?thesis using assms fl_nonneg [of y] by (simp add: fl_def)
next
  case False
  then have px: "0 < x" using assms by simp
  then have py: "0 < y" using assms by simp
  have le: "fexp x \<le> fexp y" using px assms(2) by (rule fexp_mono)
  show ?thesis
  proof (cases "fexp x = fexp y")
    case True
    have "x / 2 powi fexp y \<le> y / 2 powi fexp y"
      using assms(2) by (intro divide_right_mono) auto
    then have "rne (x / 2 powi fexp y) \<le> rne (y / 2 powi fexp y)" by (rule rne_mono)
    then have "(of_int (rne (x / 2 powi fexp y)) :: rat) \<le> of_int (rne (y / 2 powi fexp y))"
      by (simp only: of_int_le_iff)
    then have "of_int (rne (x / 2 powi fexp y)) * 2 powi fexp y \<le> of_int (rne (y / 2 powi fexp y)) * (2::rat) powi fexp y"
      by (intro mult_right_mono) auto
    then show ?thesis using px py True by (simp add: fl_alt)
  next
    case False
    with le have lt: "fexp x < fexp y" by simp
    then have ey: "fexp y = ilog2 y - 52" using py px by (auto simp: fexp_def max_def split: if_splits)
    have ex: "ilog2 x - 52 \<le> fexp x" using px by (simp add: fexp_def)
    define n where "n = ilog2 y"
    have "ilog2 x < n" using lt ey ex by (simp add: n_def)
    then have "ilog2 x + 1 \<le> n" by simp
    then have "(2::rat) powi (ilog2 x + 1) \<le> 2 powi n" by (simp add: two_powi_le_iff)
    with ilog2_bounds(2) [OF px] have xn: "x \<le> 2 powi n" by simp
    have "fexp x \<le> n" using lt ey by (simp add: n_def)
    with px xn have 1: "fl x \<le> 2 powi n" by (rule fl_le_pow)
    have yn: "2 powi n \<le> y" unfolding n_def using py by (rule ilog2_bounds(1))
    have "fexp y \<le> n" using ey by (simp add: n_def)
    with yn have 2: "2 powi n \<le> fl y" by (rule fl_ge_pow)
    from 1 2 show ?thesis by simp
  qed
qed

lemma fl_dyadic:
  assumes "0 \<le> m" "m < 2 ^ 53" "- 1074 \<le> j"
  shows "fl (of_int m * 2 powi j) = of_int m * 2 powi j"
proof (cases "m = 0")
  case True
  then show ?thesis by (simp add: fl_def)
next
  case False
  with assms show ?thesis by (intro fl_exact) auto
qed

lemma fl_between:
  assumes lo: "of_int a * 2 powi j \<le> x" and hi: "x \<le> of_int b * 2 powi j"
    and a: "0 \<le> a" and b: "b < 2 ^ 53" and j: "- 1074 \<le> j"
  shows "of_int a * 2 powi j \<le> fl x" and "fl x \<le> of_int b * 2 powi j"
proof -
  have a0: "(0::rat) \<le> of_int a * 2 powi j" using a by simp
  then have x0: "0 \<le> x" using lo by simp
  have "(of_int a :: rat) * 2 powi j \<le> of_int b * 2 powi j" using lo hi by (rule order_trans)
  then have "(of_int a :: rat) \<le> of_int b" by (rule mult_right_le_imp_le) simp
  then have ab: "a \<le> b" by (simp only: of_int_le_iff)
  have "fl (of_int a * 2 powi j) \<le> fl x" using a0 lo by (rule fl_mono)
  moreover have "fl (of_int a * 2 powi j) = of_int a * 2 powi j"
    using a ab b j by (intro fl_dyadic) auto
  ultimately show "of_int a * 2 powi j \<le> fl x" by simp
  have "fl x \<le> fl (of_int b * 2 powi j)" using x0 hi by (rule fl_mono)
  moreover have "fl (of_int b * 2 powi j) = of_int b * 2 powi j"
    using a ab b j by (intro fl_dyadic) auto
  ultimately show "fl x \<le> of_int b * 2 powi j" by simp
qed

text \<open>Sandwich between k and k + 255/256, for a natural k below 2^40.\<close>

lemma fl_near:
  assumes lo: "of_nat k \<le> x" and hi: "x \<le> of_nat k + 255 / 256" and k: "k < 2 ^ 40"
  shows "of_nat k \<le> fl x" and "fl x \<le> of_nat k + 255 / 256"
proof -
  have p8: "(2::rat) powi (- 8) = 1 / 256" by (simp add: power_int_minus_divide)
  have A: "(of_int (int k * 256) :: rat) * 2 powi (- 8) = of_nat k" by (simp add: p8)
  have B: "(of_int (int k * 256 + 255) :: rat) * 2 powi (- 8) = of_nat k + 255 / 256"
    by (simp add: p8 field_simps)
  have "int k < int (2 ^ 40)" using k by (simp only: of_nat_less_iff)
  then have b: "int k * 256 + 255 < 2 ^ 53" by simp
  have lo': "of_int (int k * 256) * 2 powi (- 8) \<le> x" using lo by (simp only: A)
  have hi': "x \<le> of_int (int k * 256 + 255) * 2 powi (- 8)" using hi by (simp only: B)
  have a0: "0 \<le> int k * 256" by simp
  have j: "- 1074 \<le> (- 8 :: int)" by simp
  note r = fl_between [OF lo' hi' a0 b j]
  from r(1) show "of_nat k \<le> fl x" by (simp only: A)
  from r(2) show "fl x \<le> of_nat k + 255 / 256" by (simp only: B)
qed

lemma div255_bounds:
  "of_nat (n div 255) \<le> (of_nat n :: rat) / 255" "(of_nat n :: rat) / 255 \<le> of_nat (n div 255) + 255 / 256"
proof -
  define k r where "k = n div 255" and "r = n mod 255"
  have n: "n = 255 * k + r" and r: "r < 255" by (simp_all add: k_def r_def)
  have e: "(of_nat n :: rat) / 255 = of_nat k + of_nat r / 255" by (simp add: n field_simps)
  show "of_nat (n div 255) \<le> (of_nat n :: rat) / 255" unfolding e k_def [symmetric] by simp
  have "r \<le> 254" using r by simp
  then have "(of_nat r :: rat) \<le> of_nat 254" by (simp only: of_nat_le_iff)
  then have "(of_nat r :: rat) \<le> 254" by simp
  then have "(of_nat r :: rat) / 255 \<le> 255 / 256" by simp
  then show "(of_nat n :: rat) / 255 \<le> of_nat (n div 255) + 255 / 256" unfolding e k_def [symmetric] by simp
qed

text \<open>The value of outA on two bytes, the source one between 0 and 255 exclusive.\<close>

lemma outA_of_bytes:
  assumes sa: "sa < 255" and da: "da \<le> 255"
  shows "\<exists>v. outA_of (Fin (of_nat sa)) (Fin (of_nat da)) = Fin v
           \<and> of_nat (spec_outA sa da) \<le> v \<and> v \<le> of_nat (spec_outA sa da) + 255 / 256"
proof -
  define n where "n = da * (255 - sa)"
  have n: "n \<le> 255 * 255" unfolding n_def using da by (intro mult_mono) auto
  have s1: "fl (255 - of_nat sa) = (of_nat (255 - sa) :: rat)"
    using sa fl_of_nat [of "255 - sa"] by (simp add: of_nat_diff)
  have s2: "fl (of_nat da * of_nat (255 - sa)) = (of_nat n :: rat)"
    using n fl_of_nat [of n] by (simp add: n_def)
  define a where "a = fl (of_nat n / 255)"
  have k: "n div 255 < 2 ^ 40" using n by simp
  note ab = fl_near [OF div255_bounds [of n] k, folded a_def]
  define v where "v = fl (of_nat sa + a)"
  have e: "outA_of (Fin (of_nat sa)) (Fin (of_nat da)) = Fin v"
    by (simp add: outA_of_def s1 s2 a_def v_def)
  have lo: "of_nat (sa + n div 255) \<le> of_nat sa + a" using ab(1) by simp
  have hi: "of_nat sa + a \<le> of_nat (sa + n div 255) + 255 / 256" using ab(2) by simp
  have k2: "sa + n div 255 < 2 ^ 40" using n sa by simp
  note vb = fl_near [OF lo hi k2, folded v_def]
  have sp: "spec_outA sa da = sa + n div 255" by (simp add: spec_outA_def n_def)
  show ?thesis using e vb by (auto simp: sp)
qed

section \<open>Bytes, truncation and the blended alpha\<close>

lemma trunc_of_nat: "trunc (of_nat n) = int n"
  by (simp add: trunc_def)

lemma ToUint8_of_nat: "ToUint8 (Fin (of_nat n)) = of_nat n"
  by (simp add: ToUint8_def trunc_of_nat)

lemma ToUint8_num_of_byte: "ToUint8 (num_of_byte b) = b"
  unfolding num_of_byte_def ToUint8_of_nat by simp

lemma trunc_near:
  assumes "of_nat k \<le> v" "v \<le> of_nat k + 255 / 256"
  shows "trunc v = int k"
proof -
  have "0 \<le> v" using assms(1) by (rule order_trans [rotated]) simp
  moreover have "\<lfloor>v\<rfloor> = int k"
    using assms by (intro floor_unique) auto
  ultimately show ?thesis by (simp add: trunc_def)
qed

lemma bor0_near:
  assumes "of_nat k \<le> v" "v \<le> of_nat k + 255 / 256" "k \<le> 255"
  shows "bor0 (Fin v) = Fin (of_nat k)"
proof -
  have "trunc v = int k" using assms(1,2) by (rule trunc_near)
  then show ?thesis using assms(3) by (simp add: Let_def)
qed

lemma spec_outA_le: "sa \<le> 255 \<Longrightarrow> da \<le> 255 \<Longrightarrow> spec_outA sa da \<le> 255"
proof -
  assume sa: "sa \<le> 255" and da: "da \<le> 255"
  have "da * (255 - sa) \<le> 255 * (255 - sa)" using da by (intro mult_right_mono) auto
  then have "da * (255 - sa) div 255 \<le> 255 * (255 - sa) div 255" by (rule div_le_mono)
  then show ?thesis using sa by (simp add: spec_outA_def)
qed

lemma spec_outA_ge: "sa \<le> spec_outA sa da"
  by (simp add: spec_outA_def)

lemma unat_byte_le: "unat (b :: byte) \<le> 255"
  using unsigned_less [of b, where 'a = nat] by simp

lemma byte_less_255: "(b :: byte) < 255 \<Longrightarrow> unat b < 255"
  by (simp add: word_less_nat_alt)

lemma byte_pos: "0 < (b :: byte) \<Longrightarrow> 0 < unat b"
  by (simp add: word_less_nat_alt)

lemma outA_byte:
  assumes "sa < (255 :: byte)"
  shows "\<exists>v. outA_of (num_of_byte sa) (num_of_byte da) = Fin v
           \<and> of_nat (spec_outA (unat sa) (unat da)) \<le> v
           \<and> v \<le> of_nat (spec_outA (unat sa) (unat da)) + 255 / 256"
  unfolding num_of_byte_def
  using assms by (intro outA_of_bytes byte_less_255 unat_byte_le)

lemma outA_byte_gt0:
  assumes "0 < sa" "sa < (255 :: byte)"
  shows "gt0 (outA_of (num_of_byte sa) (num_of_byte da))"
proof -
  from outA_byte [OF assms(2), of da] obtain v where
    v: "outA_of (num_of_byte sa) (num_of_byte da) = Fin v"
       "of_nat (spec_outA (unat sa) (unat da)) \<le> v" by blast
  have "0 < unat sa" using assms(1) by (rule byte_pos)
  then have "0 < spec_outA (unat sa) (unat da)" using spec_outA_ge [of "unat sa" "unat da"] by simp
  then have "(0::rat) < of_nat (spec_outA (unat sa) (unat da))" by (simp only: of_nat_0_less_iff)
  with v(2) have "0 < v" by simp
  then show ?thesis by (simp add: v(1))
qed

lemma outA_byte_stored:
  assumes "sa < (255 :: byte)"
  shows "ToUint8 (bor0 (outA_of (num_of_byte sa) (num_of_byte da))) = of_nat (spec_outA (unat sa) (unat da))"
proof -
  from outA_byte [OF assms, of da] obtain v where
    v: "outA_of (num_of_byte sa) (num_of_byte da) = Fin v"
       "of_nat (spec_outA (unat sa) (unat da)) \<le> v"
       "v \<le> of_nat (spec_outA (unat sa) (unat da)) + 255 / 256" by blast
  have "spec_outA (unat sa) (unat da) \<le> 255"
    by (intro spec_outA_le unat_byte_le)
  with v(2,3) have "bor0 (Fin v) = Fin (of_nat (spec_outA (unat sa) (unat da)))" by (rule bor0_near)
  then show ?thesis by (simp only: v(1) ToUint8_of_nat)
qed

lemma num_of_byte_neq: "unat b \<noteq> n \<Longrightarrow> num_of_byte b \<noteq> Fin (of_nat n)"
  unfolding num_of_byte_def by (simp only: num.inject of_nat_eq_iff not_False_eq_True)

text \<open>The semi-transparent branch of blend_pixel, once its guards are settled.\<close>

lemma blend_pixel_semi:
  assumes sa: "buf_get rgba (si + 3) = num_of_byte sa" "0 < sa" "sa < 255"
    and di: "di + 3 < length canvas"
  shows "blend_pixel canvas rgba si di =
     canvas[di := ToUint8 (outC_of (buf_get rgba si) (num_of_byte sa) (buf_get canvas di) (buf_get canvas (di + 3))),
            di + 1 := ToUint8 (outC_of (buf_get rgba (si + 1)) (num_of_byte sa) (buf_get canvas (di + 1)) (buf_get canvas (di + 3))),
            di + 2 := ToUint8 (outC_of (buf_get rgba (si + 2)) (num_of_byte sa) (buf_get canvas (di + 2)) (buf_get canvas (di + 3))),
            di + 3 := of_nat (spec_outA (unat sa) (unat (canvas ! (di + 3))))]"
proof -
  have da: "buf_get canvas (di + 3) = num_of_byte (canvas ! (di + 3))"
    using di by (simp add: buf_get_def)
  have "num_of_byte sa \<noteq> Fin (of_nat 255)"
    using byte_less_255 [OF sa(3)] by (intro num_of_byte_neq) simp
  then have n255: "num_of_byte sa \<noteq> Fin 255" by simp
  have "num_of_byte sa \<noteq> Fin (of_nat 0)"
    using byte_pos [OF sa(2)] by (intro num_of_byte_neq) simp
  then have n0: "num_of_byte sa \<noteq> Fin 0" by simp
  have g: "gt0 (outA_of (num_of_byte sa) (num_of_byte (canvas ! (di + 3))))"
    using sa(2,3) by (rule outA_byte_gt0)
  have st: "ToUint8 (bor0 (outA_of (num_of_byte sa) (num_of_byte (canvas ! (di + 3)))))
      = of_nat (spec_outA (unat sa) (unat (canvas ! (di + 3))))"
    using sa(3) by (rule outA_byte_stored)
  show ?thesis
    using di by (simp add: blend_pixel_def sa(1) da n255 n0 g st buf_set_def Let_def)
qed

section \<open>Rounding errors of the blended colour\<close>

lemma rne_near: "t - 1 / 2 \<le> of_int (rne t)" "of_int (rne t) \<le> t + 1 / 2"
proof -
  define f r n where "f = \<lfloor>t\<rfloor>" and "r = t - of_int f" and "n = rne t"
  have r: "0 \<le> r" "r < 1" unfolding r_def f_def by linarith+
  have t: "t = of_int f + r" by (simp add: r_def)
  have e: "n = (if r < 1 / 2 then f else if 1 / 2 < r then f + 1 else if even f then f else f + 1)"
    by (simp add: n_def rne_def Let_def f_def r_def)
  consider "r < 1 / 2" | "1 / 2 < r" | "r = 1 / 2" by linarith
  then have "t - 1 / 2 \<le> of_int n \<and> of_int n \<le> t + 1 / 2"
  proof cases
    case 1
    then have "n = f" by (simp add: e)
    then show ?thesis using r 1 unfolding t by simp
  next
    case 2
    then have "n = f + 1" by (simp add: e)
    then show ?thesis using r 2 unfolding t by simp
  next
    case 3
    then have "n = f \<or> n = f + 1" by (simp add: e)
    then show ?thesis using 3 unfolding t by auto
  qed
  then show "t - 1 / 2 \<le> of_int (rne t)" "of_int (rne t) \<le> t + 1 / 2"
    by (simp_all add: n_def)
qed

lemma fl_rel:
  assumes "2 powi (- 1022) \<le> x"
  shows "x * (1 - 2 powi (- 53)) \<le> fl x" and "fl x \<le> x * (1 + 2 powi (- 53))"
proof -
  have pos: "0 < x" using assms by (rule less_le_trans [rotated]) simp
  have "- 1022 \<le> ilog2 x" using assms by (rule ilog2_ge)
  then have e: "fexp x = ilog2 x - 52" using pos by (simp add: fexp_def)
  define h where "h = (2::rat) powi (fexp x) / 2"
  have "h = 2 powi (ilog2 x) * 2 powi (- 53)"
    unfolding h_def e by (simp add: power_int_diff power_int_minus_divide)
  also have "\<dots> \<le> x * 2 powi (- 53)"
    using ilog2_bounds(1) [OF pos] by (intro mult_right_mono) simp_all
  finally have h: "h \<le> x * 2 powi (- 53)" .
  have fx: "fl x = of_int (rne (x / 2 powi fexp x)) * 2 powi fexp x"
    using pos by (simp add: fl_alt)
  have p: "(0::rat) < 2 powi fexp x" by simp
  have "(x / 2 powi fexp x - 1 / 2) * 2 powi fexp x \<le> fl x"
    unfolding fx using rne_near(1) [of "x / 2 powi fexp x"] p by (intro mult_right_mono) simp_all
  moreover have "(x / 2 powi fexp x - 1 / 2) * 2 powi fexp x = x - h"
    by (simp add: h_def field_simps)
  ultimately have lo: "x - h \<le> fl x" by simp
  have "fl x \<le> (x / 2 powi fexp x + 1 / 2) * 2 powi fexp x"
    unfolding fx using rne_near(2) [of "x / 2 powi fexp x"] p by (intro mult_right_mono) simp_all
  moreover have "(x / 2 powi fexp x + 1 / 2) * 2 powi fexp x = x + h"
    by (simp add: h_def field_simps)
  ultimately have hi: "fl x \<le> x + h" by simp
  show "x * (1 - 2 powi (- 53)) \<le> fl x" using lo h by (simp add: algebra_simps)
  show "fl x \<le> x * (1 + 2 powi (- 53))" using hi h by (simp add: algebra_simps)
qed

lemma fl_rel0:
  assumes "x = 0 \<or> 1 / 1048576 \<le> x"
  shows "x * (1 - 2 powi (- 53)) \<le> fl x \<and> fl x \<le> x * (1 + 2 powi (- 53))"
proof (cases "x = 0")
  case True
  then show ?thesis by (simp add: fl_def)
next
  case False
  then have x: "1 / 1048576 \<le> x" using assms by simp
  have "(2::rat) powi (- 1022) \<le> 2 powi (- 20)" by (simp only: two_powi_le_iff)
  also have "(2::rat) powi (- 20) = 1 / 1048576" by (simp add: power_int_minus_divide)
  finally have "2 powi (- 1022) \<le> x" using x by simp
  then show ?thesis using fl_rel [of x] by simp
qed

lemma ulp_bounds:
  fixes u :: rat
  assumes "u = 2 powi (- 53)"
  shows "0 < u" "u < 1"
    and "(1 + u) ^ 3 \<le> (1 + 2 powi (- 50)) * (1 - u) ^ 2"
    and "(1 - 2 powi (- 50)) * (1 + u) ^ 2 \<le> (1 - u) ^ 3"
proof -
  have u: "u = 1 / 9007199254740992" unfolding assms by (simp add: power_int_minus_divide)
  have w: "(2::rat) powi (- 50) = 1 / 1125899906842624" by (simp add: power_int_minus_divide)
  show "0 < u" "u < 1" by (simp_all add: u)
  show "(1 + u) ^ 3 \<le> (1 + 2 powi (- 50)) * (1 - u) ^ 2"
    unfolding u w by (simp add: power3_eq_cube power2_eq_square)
  show "(1 - 2 powi (- 50)) * (1 + u) ^ 2 \<le> (1 - u) ^ 3"
    unfolding u w by (simp add: power3_eq_cube power2_eq_square)
qed

lemma quotient_rel:
  fixes S B s b v u :: rat
  assumes u: "0 < u" "u < 1"
    and s: "S * (1 - u) ^ 2 \<le> s" "s \<le> S * (1 + u) ^ 2"
    and b: "B * (1 - u) ^ 2 \<le> b" "b \<le> B * (1 + u) ^ 2"
    and S: "0 \<le> S" and B: "0 < B"
    and v: "s / b * (1 - u) \<le> v" "v \<le> s / b * (1 + u)"
  shows "S / B * ((1 - u) ^ 3 / (1 + u) ^ 2) \<le> v" and "v \<le> S / B * ((1 + u) ^ 3 / (1 - u) ^ 2)"
proof -
  have m: "0 < 1 - u" and p: "0 < 1 + u" using u by simp_all
  have m2: "0 < (1 - u) ^ 2" and p2: "0 < (1 + u) ^ 2" using m p by simp_all
  have s0: "0 \<le> s" using s(1) S m2 by (meson mult_nonneg_nonneg less_imp_le order_trans)
  have bl: "0 < B * (1 - u) ^ 2" using B m2 by simp
  then have b0: "0 < b" using b(1) by simp
  have hi: "s / b \<le> S * (1 + u) ^ 2 / (B * (1 - u) ^ 2)"
    by (rule frac_le) (use S p2 s b bl in simp_all)
  have "v \<le> s / b * (1 + u)" by (rule v(2))
  also have "\<dots> \<le> S * (1 + u) ^ 2 / (B * (1 - u) ^ 2) * (1 + u)"
    using hi p by (intro mult_right_mono) simp_all
  also have "\<dots> = S / B * ((1 + u) ^ 3 / (1 - u) ^ 2)"
    by (simp add: power3_eq_cube power2_eq_square)
  finally show "v \<le> S / B * ((1 + u) ^ 3 / (1 - u) ^ 2)" .
  have bu: "0 < B * (1 + u) ^ 2" using B p2 by simp
  have lo: "S * (1 - u) ^ 2 / (B * (1 + u) ^ 2) \<le> s / b"
    by (rule frac_le) (use s0 s b b0 in simp_all)
  have "S / B * ((1 - u) ^ 3 / (1 + u) ^ 2) = S * (1 - u) ^ 2 / (B * (1 + u) ^ 2) * (1 - u)"
    by (simp add: power3_eq_cube power2_eq_square)
  also have "\<dots> \<le> s / b * (1 - u)"
    using lo m by (intro mult_right_mono) simp_all
  also have "\<dots> \<le> v" by (rule v(1))
  finally show "S / B * ((1 - u) ^ 3 / (1 + u) ^ 2) \<le> v" .
qed

lemma sum_rel:
  fixes T x t u :: rat
  assumes "0 \<le> T" "0 \<le> u" "x * (1 - u) \<le> t" "t \<le> x * (1 + u)"
  shows "(T + x) * (1 - u) \<le> T + t" and "T + t \<le> (T + x) * (1 + u)"
proof -
  have "T * (1 - u) \<le> T" using assms(1,2) by (simp add: algebra_simps)
  then show "(T + x) * (1 - u) \<le> T + t" using assms(3) by (simp add: algebra_simps)
  have "T \<le> T * (1 + u)" using assms(1,2) by (simp add: algebra_simps)
  then show "T + t \<le> (T + x) * (1 + u)" using assms(4) by (simp add: algebra_simps)
qed

lemma fl_rel1:
  assumes "x = 0 \<or> 1 / 65536 \<le> x"
  shows "x * (1 - 2 powi (- 53)) \<le> fl x \<and> fl x \<le> x * (1 + 2 powi (- 53))"
  using assms by (intro fl_rel0) auto

lemma fl_ge_256th: "1 / 256 \<le> x \<Longrightarrow> 1 / 256 \<le> fl x"
proof -
  assume a: "1 / 256 \<le> x"
  have p: "(of_int 1 :: rat) * 2 powi (- 8) = 1 / 256" by (simp add: power_int_minus_divide)
  have "fl (of_int 1 * 2 powi (- 8)) = of_int 1 * 2 powi (- 8)"
    by (rule fl_dyadic) simp_all
  then have "fl (1 / 256) = 1 / 256" by (simp only: p)
  moreover have "fl (1 / 256) \<le> fl x" using a by (intro fl_mono) simp_all
  ultimately show ?thesis by simp
qed

lemma fl_zero: "fl 0 = 0"
  by (simp add: fl_def)

lemma fl_keeps_256th:
  assumes "x = 0 \<or> 1 / 256 \<le> x"
  shows "fl x = 0 \<or> 1 / 256 \<le> fl x"
proof (cases "x = 0")
  case True
  then show ?thesis by (simp only: fl_zero) simp
next
  case False
  with assms have "1 / 256 \<le> x" by simp
  then have "1 / 256 \<le> fl x" by (rule fl_ge_256th)
  then show ?thesis ..
qed

lemma div255_pos: "0 < n \<Longrightarrow> 1 / 256 \<le> (of_nat n :: rat) / 255"
proof -
  assume "0 < n"
  then have "1 \<le> n" by simp
  then have "(of_nat 1 :: rat) \<le> of_nat n" by (simp only: of_nat_le_iff)
  then have "(1 :: rat) / 255 \<le> of_nat n / 255" by (simp add: divide_right_mono)
  then show ?thesis by simp
qed

text \<open>A term \<open>T + fl (m / 255)\<close> rounded once more: two relative errors.\<close>

lemma sum_div255_rel:
  fixes T m :: nat
  shows "(of_nat T + of_nat m / 255) * (1 - 2 powi (- 53)) ^ 2 \<le> fl (of_nat T + fl (of_nat m / 255))"
    and "fl (of_nat T + fl (of_nat m / 255)) \<le> (of_nat T + of_nat m / 255) * (1 + 2 powi (- 53)) ^ 2"
    and "fl (of_nat T + fl (of_nat m / 255)) = 0 \<or> 1 / 256 \<le> fl (of_nat T + fl (of_nat m / 255))"
    and "0 < T \<Longrightarrow> 1 \<le> fl (of_nat T + fl (of_nat m / 255))"
proof -
  define u where "u = (2::rat) powi (- 53)"
  note ub = ulp_bounds [OF u_def]
  define x where "x = (of_nat m :: rat) / 255"
  define t where "t = fl x"
  define ss where "ss = of_nat T + t"
  have x0: "0 \<le> x" by (simp add: x_def)
  have xok: "x = 0 \<or> 1 / 256 \<le> x"
    using div255_pos [of m] by (cases "m = 0") (simp_all add: x_def)
  then have "x = 0 \<or> 1 / 65536 \<le> x" by auto
  then have tr: "x * (1 - u) \<le> t" "t \<le> x * (1 + u)"
    unfolding t_def u_def using fl_rel1 [of x] by simp_all
  have t0: "0 \<le> t" unfolding t_def using x0 by (rule fl_nonneg)
  have tok: "t = 0 \<or> 1 / 256 \<le> t"
    unfolding t_def using xok by (rule fl_keeps_256th)
  have T0: "(0::rat) \<le> of_nat T" by simp
  have u0: "0 \<le> u" using ub(1) by simp
  note sr = sum_rel [OF T0 u0 tr, folded ss_def]
  have ssok: "ss = 0 \<or> 1 / 256 \<le> ss"
  proof (cases "T = 0")
    case True
    then show ?thesis using tok by (simp add: ss_def)
  next
    case False
    then have "1 \<le> T" by simp
    then have "(of_nat 1 :: rat) \<le> of_nat T" by (simp only: of_nat_le_iff)
    then have "1 \<le> ss" using t0 by (simp add: ss_def)
    then show ?thesis by simp
  qed
  then have "ss = 0 \<or> 1 / 65536 \<le> ss" by auto
  then have fr: "ss * (1 - u) \<le> fl ss" "fl ss \<le> ss * (1 + u)"
    unfolding u_def using fl_rel1 [of ss] by simp_all
  have m: "0 \<le> 1 - u" and p: "0 \<le> 1 + u" using ub(1,2) by simp_all
  have "(of_nat T + x) * (1 - u) ^ 2 = (of_nat T + x) * (1 - u) * (1 - u)"
    by (simp add: power2_eq_square)
  also have "\<dots> \<le> ss * (1 - u)" using sr(1) m by (rule mult_right_mono)
  also have "\<dots> \<le> fl ss" by (rule fr(1))
  finally show "(of_nat T + of_nat m / 255) * (1 - 2 powi (- 53)) ^ 2 \<le> fl (of_nat T + fl (of_nat m / 255))"
    by (simp only: x_def ss_def t_def u_def)
  have "fl ss \<le> ss * (1 + u)" by (rule fr(2))
  also have "\<dots> \<le> (of_nat T + x) * (1 + u) * (1 + u)" using sr(2) p by (rule mult_right_mono)
  also have "\<dots> = (of_nat T + x) * (1 + u) ^ 2" by (simp add: power2_eq_square)
  finally show "fl (of_nat T + fl (of_nat m / 255)) \<le> (of_nat T + of_nat m / 255) * (1 + 2 powi (- 53)) ^ 2"
    by (simp only: x_def ss_def t_def u_def)
  show "fl (of_nat T + fl (of_nat m / 255)) = 0 \<or> 1 / 256 \<le> fl (of_nat T + fl (of_nat m / 255))"
    using fl_keeps_256th [OF ssok] by (simp only: ss_def t_def x_def)
  show "1 \<le> fl (of_nat T + fl (of_nat m / 255))" if "0 < T"
  proof -
    from that have "1 \<le> T" by simp
    then have "(of_nat 1 :: rat) \<le> of_nat T" by (simp only: of_nat_le_iff)
    then have "1 \<le> ss" using t0 by (simp add: ss_def)
    then have "fl 1 \<le> fl ss" by (intro fl_mono) simp_all
    moreover have "fl 1 = (1::rat)" using fl_of_nat [of 1] by simp
    ultimately show ?thesis by (simp add: ss_def t_def x_def)
  qed
qed

lemma ulp_ratio_bounds:
  fixes u :: rat
  assumes "u = 2 powi (- 53)"
  shows "(1 + u) ^ 3 / (1 - u) ^ 2 \<le> 1 + 2 powi (- 50)"
    and "1 - 2 powi (- 50) \<le> (1 - u) ^ 3 / (1 + u) ^ 2"
proof -
  note ub = ulp_bounds [OF assms]
  have m2: "0 < (1 - u) ^ 2" and p2: "0 < (1 + u) ^ 2" using ub(1,2) by simp_all
  show "(1 + u) ^ 3 / (1 - u) ^ 2 \<le> 1 + 2 powi (- 50)"
    using ub(3) m2 by (simp add: pos_divide_le_eq)
  show "1 - 2 powi (- 50) \<le> (1 - u) ^ 3 / (1 + u) ^ 2"
    using ub(4) p2 by (simp add: pos_le_divide_eq)
qed

lemma outC_nat:
  assumes sc: "sc \<le> 255" and sa: "0 < sa" "sa < 255" and dc: "dc \<le> 255" and da: "da \<le> 255"
  shows "\<exists>v. outC_of (Fin (of_nat sc)) (Fin (of_nat sa)) (Fin (of_nat dc)) (Fin (of_nat da))
               = bor0 (Fin v)
           \<and> 0 \<le> v
           \<and> of_nat (exact_num sc sa dc da) / of_nat (exact_den sa da) * (1 - 2 powi (- 50)) \<le> v
           \<and> v \<le> of_nat (exact_num sc sa dc da) / of_nat (exact_den sa da) * (1 + 2 powi (- 50))"
proof -
  define u where "u = (2::rat) powi (- 53)"
  note ub = ulp_bounds [OF u_def] and ur = ulp_ratio_bounds [OF u_def]
  define n M T where "n = da * (255 - sa)" and "M = dc * da * (255 - sa)" and "T = sc * sa"
  have nle: "n \<le> 255 * (255 - sa)" unfolding n_def using da by (rule mult_le_mono1)
  then have n53: "n < 2 ^ 53" by simp
  have "dc * da \<le> 255 * 255" using dc da by (rule mult_le_mono)
  then have dd53: "dc * da < 2 ^ 53" by simp
  have "M \<le> 255 * 255 * 255"
    unfolding M_def using dc da by (intro mult_le_mono) simp_all
  then have M53: "M < 2 ^ 53" by simp
  have "T \<le> 255 * 255" unfolding T_def using sc sa(2) by (intro mult_le_mono) simp_all
  then have T53: "T < 2 ^ 53" by simp
  have e1: "fl (255 - of_nat sa) = (of_nat (255 - sa) :: rat)"
    using sa(2) fl_of_nat [of "255 - sa"] by (simp add: of_nat_diff)
  have e2: "fl (of_nat sc * of_nat sa) = (of_nat T :: rat)"
    using fl_of_nat [OF T53] by (simp add: T_def)
  have e3: "fl (of_nat dc * of_nat da) = (of_nat (dc * da) :: rat)"
    using fl_of_nat [OF dd53] by simp
  have e4: "fl (of_nat dc * of_nat da * of_nat (255 - sa)) = (of_nat M :: rat)"
    using fl_of_nat [OF M53] by (simp add: M_def)
  have e5: "fl (of_nat da * of_nat (255 - sa)) = (of_nat n :: rat)"
    using fl_of_nat [OF n53] by (simp add: n_def)
  define s where "s = fl (of_nat T + fl (of_nat M / 255))"
  define b where "b = fl (of_nat sa + fl (of_nat n / 255))"
  define S :: rat where "S = of_nat T + of_nat M / 255"
  define B :: rat where "B = of_nat sa + of_nat n / 255"
  note sb = sum_div255_rel [of T M, folded s_def S_def u_def]
  note bb = sum_div255_rel [of sa n, folded b_def B_def u_def]
  have b1: "1 \<le> b" using bb(4) sa(1) by simp
  then have bnz: "b \<noteq> 0" and bpos: "0 < b" by simp_all
  have S0: "0 \<le> S" by (simp add: S_def)
  have "(1 :: rat) \<le> of_nat sa" using sa(1) by simp
  then have B1: "1 \<le> B" by (simp add: B_def)
  then have B0: "0 < B" by simp
  have "(of_nat n :: rat) \<le> of_nat (255 * (255 - sa))" using nle by (simp only: of_nat_le_iff)
  then have "(of_nat n :: rat) / 255 \<le> 255 - of_nat sa"
    using sa(2) by (simp add: of_nat_diff)
  then have B255: "B \<le> 255" by (simp add: B_def)
  have "(1 + u) ^ 2 \<le> 256 / (255 :: rat)"
    unfolding u_def by (simp add: power_int_minus_divide power2_eq_square)
  then have "B * (1 + u) ^ 2 \<le> 255 * (256 / 255)"
    using B255 B0 by (intro mult_mono) simp_all
  with bb(2) have b256: "b \<le> 256" by simp
  have s0: "0 \<le> s" using sb(3) by auto
  define q where "q = s / b"
  have q0: "0 \<le> q" using s0 bpos by (simp add: q_def)
  have qok: "q = 0 \<or> 1 / 65536 \<le> q"
  proof (cases "s = 0")
    case True
    then show ?thesis by (simp add: q_def)
  next
    case False
    then have "1 / 256 \<le> s" using sb(3) by simp
    then have "(1 / 256) / 256 \<le> s / b"
      using b256 bpos by (intro frac_le) simp_all
    then show ?thesis by (simp add: q_def)
  qed
  define v where "v = fl q"
  have vr: "q * (1 - u) \<le> v" "v \<le> q * (1 + u)"
    unfolding v_def u_def using fl_rel1 [OF qok] by simp_all
  have v0: "0 \<le> v" unfolding v_def using q0 by (rule fl_nonneg)
  note qr = quotient_rel [OF ub(1,2) sb(1,2) bb(1,2) S0 B0 vr [unfolded q_def]]
  have E0: "0 \<le> S / B" using S0 B0 by simp
  have lo: "S / B * (1 - 2 powi (- 50)) \<le> v"
    using mult_left_mono [OF ur(2) E0] qr(1) by (rule order_trans)
  have hi: "v \<le> S / B * (1 + 2 powi (- 50))"
    using qr(2) mult_left_mono [OF ur(1) E0] by (rule order_trans)
  have E: "S / B = of_nat (exact_num sc sa dc da) / of_nat (exact_den sa da)"
    using B0 unfolding S_def B_def exact_num_def exact_den_def T_def M_def n_def
    by (simp add: field_simps)
  have "outC_of (Fin (of_nat sc)) (Fin (of_nat sa)) (Fin (of_nat dc)) (Fin (of_nat da))
      = bor0 (fdiv (Fin s) (Fin b))"
    by (simp add: outC_of_def outA_of_def e1 e2 e3 e4 e5 s_def b_def del: bor0.simps)
  also have "\<dots> = bor0 (Fin v)" using bnz by (simp add: v_def q_def)
  finally show ?thesis using v0 lo hi unfolding E by blast
qed

lemma floor_near_quotient:
  fixes N D :: nat and v :: rat
  assumes D: "0 < D" "D \<le> 65025" and NE: "N \<le> 255 * D"
    and lo: "of_nat N / of_nat D * (1 - 2 powi (- 50)) \<le> v"
    and hi: "v \<le> of_nat N / of_nat D * (1 + 2 powi (- 50))"
  shows "\<lfloor>v\<rfloor> = int (N div D) \<or> (D dvd N \<and> \<lfloor>v\<rfloor> = int (N div D) - 1)"
proof -
  define q r where "q = N div D" and "r = N mod D"
  define E :: rat where "E = of_nat N / of_nat D"
  define eps :: rat where "eps = 255 * 2 powi (- 50)"
  have Dp: "(0::rat) < of_nat D" using D(1) by simp
  have w: "(2::rat) powi (- 50) = 1 / 1125899906842624" by (simp add: power_int_minus_divide)
  have N: "N = q * D + r" by (simp add: q_def r_def)
  have r: "r < D" using D(1) by (simp add: r_def)
  have Eq: "E = of_nat q + of_nat r / of_nat D"
    using Dp unfolding E_def by (subst N) (simp add: field_simps)
  have E0: "0 \<le> E" by (simp add: E_def)
  have "(of_nat N :: rat) \<le> of_nat (255 * D)" using NE by (simp only: of_nat_le_iff)
  then have E255: "E \<le> 255" using Dp by (simp add: E_def pos_divide_le_eq)
  have "E * 2 powi (- 50) \<le> 255 * 2 powi (- 50)"
    using E255 by (intro mult_right_mono) simp_all
  then have Ee: "E * 2 powi (- 50) \<le> eps" by (simp add: eps_def)
  have lo': "E - eps \<le> v" using lo Ee unfolding E_def [symmetric] by (simp add: algebra_simps)
  have hi': "v \<le> E + eps" using hi Ee unfolding E_def [symmetric] by (simp add: algebra_simps)
  have "(of_nat D :: rat) \<le> of_nat 65025" using D(2) by (simp only: of_nat_le_iff)
  then have "(of_nat D :: rat) \<le> 65025" by simp
  then have "eps * of_nat D \<le> eps * 65025"
    by (intro mult_left_mono) (simp_all add: eps_def)
  also have "\<dots> < 1" by (simp add: eps_def w)
  finally have "eps < 1 / of_nat D" using Dp by (simp add: pos_less_divide_eq)
  then have eD: "eps < 1 / of_nat D" .
  have "(1::rat) / of_nat D \<le> 1" using D(1) by simp
  with eD have e1: "eps < 1" by simp
  have e0: "0 \<le> eps" by (simp add: eps_def)
  show ?thesis
  proof (cases "r = 0")
    case True
    then have dvd: "D dvd N" by (simp add: r_def dvd_eq_mod_eq_0)
    have EQ: "E = of_nat q" using True by (simp add: Eq)
    show ?thesis
    proof (cases "of_nat q \<le> v")
      case True
      have "\<lfloor>v\<rfloor> = int q"
        using True hi' e1 by (intro floor_unique) (simp_all add: EQ)
      then show ?thesis by (simp add: q_def)
    next
      case False
      have "\<lfloor>v\<rfloor> = int q - 1"
        using False lo' e1 by (intro floor_unique) (simp_all add: EQ)
      with dvd show ?thesis by (simp add: q_def)
    qed
  next
    case False
    then have "1 \<le> r" by simp
    then have "(of_nat 1 :: rat) \<le> of_nat r" by (simp only: of_nat_le_iff)
    then have "(1::rat) / of_nat D \<le> of_nat r / of_nat D"
      using Dp by (simp add: divide_right_mono)
    then have lo2: "of_nat q + 1 / of_nat D \<le> E" by (simp add: Eq)
    have "r + 1 \<le> D" using r by simp
    then have "(of_nat (r + 1) :: rat) \<le> of_nat D" by (simp only: of_nat_le_iff)
    then have "(of_nat r :: rat) \<le> of_nat D - 1" by simp
    then have "(of_nat r :: rat) / of_nat D \<le> (of_nat D - 1) / of_nat D"
      using Dp by (simp add: divide_right_mono)
    also have "\<dots> = 1 - 1 / of_nat D" using Dp by (simp add: field_simps)
    finally have hi2: "E \<le> of_nat q + 1 - 1 / of_nat D" by (simp add: Eq)
    have "\<lfloor>v\<rfloor> = int q"
      using lo' hi' lo2 hi2 eD by (intro floor_unique) simp_all
    then show ?thesis by (simp add: q_def)
  qed
qed

lemma exact_bounds:
  assumes "sc \<le> 255" "0 < sa" "sa < 255" "dc \<le> 255" "da \<le> 255"
  shows "0 < exact_den sa da" "exact_den sa da \<le> 65025"
    and "exact_num sc sa dc da \<le> 255 * exact_den sa da"
proof -
  show "0 < exact_den sa da" using assms(2) by (simp add: exact_den_def)
  have "da * (255 - sa) \<le> 255 * (255 - sa)" using assms(5) by (rule mult_le_mono1)
  then have "255 * sa + da * (255 - sa) \<le> 255 * sa + 255 * (255 - sa)"
    by (rule add_left_mono)
  also have "255 * sa + 255 * (255 - sa) = 255 * (sa + (255 - sa))"
    by (simp only: add_mult_distrib2)
  also have "\<dots> = 65025" using assms(3) by simp
  finally show "exact_den sa da \<le> 65025" by (simp only: exact_den_def)
  have 1: "255 * sc * sa \<le> 255 * 255 * sa" using assms(1) by simp
  have "dc * (da * (255 - sa)) \<le> 255 * (da * (255 - sa))" using assms(4) by (rule mult_le_mono1)
  then have 2: "dc * da * (255 - sa) \<le> 255 * (da * (255 - sa))" by (simp add: mult.assoc)
  from 1 2 have "255 * sc * sa + dc * da * (255 - sa) \<le> 255 * 255 * sa + 255 * (da * (255 - sa))"
    by (rule add_le_mono)
  also have "\<dots> = 255 * (255 * sa + da * (255 - sa))"
    by (simp only: add_mult_distrib2 mult.assoc)
  finally show "exact_num sc sa dc da \<le> 255 * exact_den sa da"
    by (simp only: exact_num_def exact_den_def)
qed

lemma outC_byte_stored:
  assumes "0 < sa" "sa < (255 :: byte)"
  shows "ToUint8 (outC_of (num_of_byte sc) (num_of_byte sa) (num_of_byte dc) (num_of_byte da))
           = of_nat (exact_num (unat sc) (unat sa) (unat dc) (unat da) div exact_den (unat sa) (unat da))
       \<or> (exact_den (unat sa) (unat da) dvd exact_num (unat sc) (unat sa) (unat dc) (unat da)
          \<and> ToUint8 (outC_of (num_of_byte sc) (num_of_byte sa) (num_of_byte dc) (num_of_byte da))
              = of_nat (exact_num (unat sc) (unat sa) (unat dc) (unat da)
                          div exact_den (unat sa) (unat da) - 1))"
proof -
  let ?N = "exact_num (unat sc) (unat sa) (unat dc) (unat da)"
  let ?D = "exact_den (unat sa) (unat da)"
  have h: "unat sc \<le> 255" "0 < unat sa" "unat sa < 255" "unat dc \<le> 255" "unat da \<le> 255"
    using assms by (simp_all add: unat_byte_le byte_pos byte_less_255)
  note eb = exact_bounds [OF h]
  from outC_nat [OF h] obtain v where
    v: "outC_of (num_of_byte sc) (num_of_byte sa) (num_of_byte dc) (num_of_byte da) = bor0 (Fin v)"
      "0 \<le> v"
      "of_nat ?N / of_nat ?D * (1 - 2 powi (- 50)) \<le> v"
      "v \<le> of_nat ?N / of_nat ?D * (1 + 2 powi (- 50))"
    unfolding num_of_byte_def by blast
  note fq = floor_near_quotient [OF eb v(3,4)]
  have "?N div ?D \<le> (255 * ?D) div ?D" using eb(3) by (rule div_le_mono)
  then have qle: "?N div ?D \<le> 255" using eb(1) by simp
  have f0: "0 \<le> \<lfloor>v\<rfloor>" using v(2) by simp
  define k where "k = \<lfloor>v\<rfloor>"
  have "k \<le> int (?N div ?D)" using fq unfolding k_def [symmetric] by auto
  then have kle: "k \<le> 255" using qle by simp
  have k0: "0 \<le> k" using f0 by (simp only: k_def)
  have "trunc v = k" using v(2) by (simp add: trunc_def k_def)
  then have "bor0 (Fin v) = Fin (of_int k)" using k0 kle by (simp add: Let_def)
  then have "ToUint8 (bor0 (Fin v)) = of_int k" by (simp add: ToUint8_def trunc_def)
  then have st: "ToUint8 (bor0 (Fin v)) = of_int \<lfloor>v\<rfloor>" by (simp only: k_def)
  from fq show ?thesis
    unfolding v(1)
  proof
    assume e: "\<lfloor>v\<rfloor> = int (?N div ?D)"
    have "ToUint8 (bor0 (Fin v)) = of_int (int (?N div ?D))" by (simp only: st e)
    then have "ToUint8 (bor0 (Fin v)) = of_nat (?N div ?D)" by (simp only: of_int_of_nat_eq)
    then show "ToUint8 (bor0 (Fin v)) = of_nat (?N div ?D)
        \<or> (?D dvd ?N \<and> ToUint8 (bor0 (Fin v)) = of_nat (?N div ?D - 1))"
      by (rule disjI1)
  next
    assume a: "?D dvd ?N \<and> \<lfloor>v\<rfloor> = int (?N div ?D) - 1"
    then have e: "\<lfloor>v\<rfloor> = int (?N div ?D) - 1" and d: "?D dvd ?N" by simp_all
    have "1 \<le> ?N div ?D" using f0 unfolding e by simp
    then have i: "int (?N div ?D) - 1 = int (?N div ?D - 1)" by simp
    have "ToUint8 (bor0 (Fin v)) = of_int (int (?N div ?D - 1))" by (simp only: st e i)
    then have "ToUint8 (bor0 (Fin v)) = of_nat (?N div ?D - 1)" by (simp only: of_int_of_nat_eq)
    with d show "ToUint8 (bor0 (Fin v)) = of_nat (?N div ?D)
        \<or> (?D dvd ?N \<and> ToUint8 (bor0 (Fin v)) = of_nat (?N div ?D - 1))"
      by (intro disjI2 conjI)
  qed
qed

lemma blend_pixel_semi_nth:
  assumes "buf_get rgba (si + 3) = num_of_byte sa" and "0 < sa" and "sa < 255"
    and "di + 3 < length canvas" and "k < 3"
  shows "blend_pixel canvas rgba si di ! (di + k)
       = ToUint8 (outC_of (num_of_byte (rgba ! (si + k))) (num_of_byte sa)
           (num_of_byte (canvas ! (di + k))) (num_of_byte (canvas ! (di + 3))))"
proof -
  have si: "si + 3 < length rgba"
    using assms(1) by (simp add: buf_get_def num_of_byte_def split: if_splits)
  have r: "buf_get rgba (si + j) = num_of_byte (rgba ! (si + j))" if "j \<le> 3" for j
    using si that by (simp add: buf_get_def)
  have c: "buf_get canvas (di + j) = num_of_byte (canvas ! (di + j))" if "j \<le> 3" for j
    using assms(4) that by (simp add: buf_get_def)
  note rs = r [of 0, simplified] r [of 1, simplified] r [of 2, simplified]
  note cs = c [of 0, simplified] c [of 1, simplified] c [of 2, simplified] c [of 3, simplified]
  consider "k = 0" | "k = 1" | "k = 2" using assms(5) by linarith
  then show ?thesis
    using assms(4) by cases (simp_all add: blend_pixel_semi [OF assms(1-4)] rs cs)
qed

section \<open>Single pixels of the blending branch\<close>

text \<open>
  C7. A patch pixel of the blending branch whose alpha is 0 leaves the canvas as it is:
  no byte of the destination pixel, nor any other byte, changes.
\<close>

theorem transparent_pixel_unchanged:
  "buf_get rgba (si + 3) = Fin 0 \<Longrightarrow> blend_pixel canvas rgba si di = canvas"
  by (simp add: blend_pixel_def)

theorem transparent_pixel_unchanged_witness:
  "buf_get [1, 2, 3, 0] (0 + 3) = Fin 0 \<and> blend_pixel [7, 8, 9, 10] [1, 2, 3, 0] 0 0 = [7, 8, 9, 10]"
  using transparent_pixel_unchanged [of "[1, 2, 3, 0]" 0 "[7, 8, 9, 10]" 0]
  by (simp add: buf_get_def num_of_byte_def)

text \<open>
  C5. A patch pixel of the blending branch whose alpha is 255 gives, on every canvas, the
  very buffer that the overwrite of the \<^verbatim>\<open>blend === false\<close> branch gives for the same
  pixel; a destination pixel inside the canvas receives the three colour bytes of the
  source and alpha 255.
\<close>

theorem opaque_blend_is_overwrite:
  assumes "buf_get rgba (si + 3) = Fin 255"
  shows "blend_pixel canvas rgba si di = copy_pixel canvas rgba si di
       \<and> (di + 3 < length canvas \<longrightarrow>
            blend_pixel canvas rgba si di ! di = rgba ! si
          \<and> blend_pixel canvas rgba si di ! (di + 1) = rgba ! (si + 1)
          \<and> blend_pixel canvas rgba si di ! (di + 2) = rgba ! (si + 2)
          \<and> blend_pixel canvas rgba si di ! (di + 3) = 255)"
proof -
  have e: "blend_pixel canvas rgba si di = copy_pixel canvas rgba si di"
    using assms by (simp add: blend_pixel_def copy_pixel_def)
  have si: "si + 3 < length rgba"
    using assms by (simp add: buf_get_def split: if_splits)
  have a: "ToUint8 (Fin 255) = 255" by (simp add: ToUint8_def trunc_def)
  have "copy_pixel canvas rgba si di ! di = rgba ! si
          \<and> copy_pixel canvas rgba si di ! (di + 1) = rgba ! (si + 1)
          \<and> copy_pixel canvas rgba si di ! (di + 2) = rgba ! (si + 2)
          \<and> copy_pixel canvas rgba si di ! (di + 3) = 255"
    if "di + 3 < length canvas"
    using that si assms
    by (simp add: copy_pixel_def Let_def buf_set_def buf_get_def ToUint8_num_of_byte a)
  with e show ?thesis by simp
qed

theorem opaque_blend_is_overwrite_witness:
  "buf_get [1, 2, 3, 255] (0 + 3) = Fin 255 \<and> 0 + 3 < length [7, 8, 9, 10 :: byte]
   \<and> blend_pixel [7, 8, 9, 10] [1, 2, 3, 255] 0 0 ! (0 + 2) = 3
   \<and> blend_pixel [7, 8, 9, 10] [1, 2, 3, 255] 0 0 ! (0 + 3) = 255"
  using opaque_blend_is_overwrite [of "[1, 2, 3, 255]" 0 "[7, 8, 9, 10]" 0, THEN conjunct2]
  by (simp add: buf_get_def num_of_byte_def)

text \<open>
  C1, as the program has it. For a source alpha strictly between 0 and 255 and a
  destination pixel inside the canvas, the stored alpha is \<open>sa + da * (255 - sa) div 255\<close>.
  Each stored colour channel is the truncation of the quotient
  \<open>(sc * sa + dc * da * (255 - sa) / 255) / outA\<close> computed in double precision, where
  neither the inner division by 255 nor \<open>outA\<close> is truncated: it is the integer part of the
  exact quotient \<open>exact_num / exact_den\<close>, or one less than that when the exact quotient is
  an integer. Source \<open>(255,0,0,128)\<close> over destination \<open>(0,0,255,255)\<close> gives red 128 and
  alpha 255.
\<close>

theorem blend_semi_transparent_pixel:
  assumes "buf_get rgba (si + 3) = num_of_byte sa" and "0 < sa" and "sa < 255"
    and "di + 3 < length canvas" and "k < 3"
  shows "blend_pixel canvas rgba si di ! (di + 3)
           = of_nat (spec_outA (unat sa) (unat (canvas ! (di + 3))))
       \<and> blend_pixel canvas rgba si di ! (di + k)
           = ToUint8 (outC_of (num_of_byte (rgba ! (si + k))) (num_of_byte sa)
               (num_of_byte (canvas ! (di + k))) (num_of_byte (canvas ! (di + 3))))
       \<and> (blend_pixel canvas rgba si di ! (di + k)
             = of_nat (exact_num (unat (rgba ! (si + k))) (unat sa) (unat (canvas ! (di + k)))
                         (unat (canvas ! (di + 3)))
                       div exact_den (unat sa) (unat (canvas ! (di + 3))))
          \<or> exact_den (unat sa) (unat (canvas ! (di + 3)))
               dvd exact_num (unat (rgba ! (si + k))) (unat sa) (unat (canvas ! (di + k)))
                     (unat (canvas ! (di + 3)))
            \<and> blend_pixel canvas rgba si di ! (di + k)
                = of_nat (exact_num (unat (rgba ! (si + k))) (unat sa) (unat (canvas ! (di + k)))
                            (unat (canvas ! (di + 3)))
                          div exact_den (unat sa) (unat (canvas ! (di + 3))) - 1))
       \<and> blend_pixel [0, 0, 255, 255] [255, 0, 0, 128] 0 0 = [128, 0, 127, 255]"
proof -
  have ex: "blend_pixel [0, 0, 255, 255] [255, 0, 0, 128] 0 0 = [128, 0, 127, 255]"
    by code_simp
  have a: "blend_pixel canvas rgba si di ! (di + 3)
           = of_nat (spec_outA (unat sa) (unat (canvas ! (di + 3))))"
    using assms(4) by (simp add: blend_pixel_semi [OF assms(1-4)])
  note n = blend_pixel_semi_nth [OF assms]
  note c = outC_byte_stored [OF assms(2,3), of "rgba ! (si + k)" "canvas ! (di + k)"
      "canvas ! (di + 3)", folded n]
  from a n c ex show ?thesis by (intro conjI)
qed

theorem blend_semi_transparent_pixel_witness:
  "buf_get [255, 0, 0, 128] (0 + 3) = num_of_byte 128 \<and> (0 :: byte) < 128 \<and> (128 :: byte) < 255
   \<and> 0 + 3 < length [0, 0, 255, 255 :: byte] \<and> (0 :: nat) < 3
   \<and> blend_pixel [0, 0, 255, 255] [255, 0, 0, 128] 0 0 ! (0 + 3) = 255"
  using blend_semi_transparent_pixel [of "[255, 0, 0, 128]" 0 128 0 "[0, 0, 255, 255]" 0,
      THEN conjunct1]
  by (simp add: buf_get_def spec_outA_def)

text \<open>
  The reading of C1 with every division an integer division fails: source \<open>(0,0,0,128)\<close>
  over destination \<open>(255,0,0,128)\<close> stores red 84, the all-integer formula gives 85.
\<close>

theorem blend_integer_division_counterexample:
  "blend_pixel [255, 0, 0, 128] [0, 0, 0, 128] 0 0 ! 0 = 84
   \<and> spec_outC 0 128 255 128 = 85
   \<and> blend_pixel [255, 0, 0, 128] [0, 0, 0, 128] 0 0 ! 0 \<noteq> of_nat (spec_outC 0 128 255 128)"
proof -
  have a: "blend_pixel [255, 0, 0, 128] [0, 0, 0, 128] 0 0 = [84, 0, 0, 191]"
    by code_simp
  have b: "spec_outC 0 128 255 128 = 85"
    by (simp add: spec_outC_def spec_outA_def)
  show ?thesis by (simp add: a b)
qed

text \<open>
  C10. For a source alpha strictly between 0 and 255 and a destination pixel inside the
  canvas, \<^verbatim>\<open>outA\<close> is a number not below the source alpha, hence positive; the test
  \<^verbatim>\<open>outA > 0\<close> succeeds, and the four bytes of the destination pixel are written.
\<close>

theorem semi_transparent_guard_holds:
  assumes "buf_get rgba (si + 3) = num_of_byte sa" and "0 < sa" and "sa < 255"
    and "di + 3 < length canvas"
  shows "(case outA_of (num_of_byte sa) (buf_get canvas (di + 3)) of
            NaN \<Rightarrow> False
          | Fin v \<Rightarrow> of_nat (unat sa) \<le> v \<and> 0 < v)
       \<and> gt0 (outA_of (num_of_byte sa) (buf_get canvas (di + 3)))
       \<and> blend_pixel canvas rgba si di =
           canvas[di := ToUint8 (outC_of (buf_get rgba si) (num_of_byte sa)
                    (buf_get canvas di) (buf_get canvas (di + 3))),
                  di + 1 := ToUint8 (outC_of (buf_get rgba (si + 1)) (num_of_byte sa)
                    (buf_get canvas (di + 1)) (buf_get canvas (di + 3))),
                  di + 2 := ToUint8 (outC_of (buf_get rgba (si + 2)) (num_of_byte sa)
                    (buf_get canvas (di + 2)) (buf_get canvas (di + 3))),
                  di + 3 := ToUint8 (bor0 (outA_of (num_of_byte sa) (buf_get canvas (di + 3))))]"
proof -
  let ?da = "canvas ! (di + 3)"
  have da: "buf_get canvas (di + 3) = num_of_byte ?da"
    using assms(4) by (simp add: buf_get_def)
  from outA_byte [OF assms(3), of ?da] obtain v where
    v: "outA_of (num_of_byte sa) (num_of_byte ?da) = Fin v"
       "of_nat (spec_outA (unat sa) (unat ?da)) \<le> v" by blast
  have "(of_nat (unat sa) :: rat) \<le> of_nat (spec_outA (unat sa) (unat ?da))"
    using spec_outA_ge [of "unat sa" "unat ?da"] by (simp only: of_nat_le_iff)
  from this v(2) have 1: "of_nat (unat sa) \<le> v" by (rule order_trans)
  have g: "gt0 (outA_of (num_of_byte sa) (num_of_byte ?da))"
    using assms(2,3) by (rule outA_byte_gt0)
  then have 2: "0 < v" by (simp add: v(1))
  have st: "ToUint8 (bor0 (outA_of (num_of_byte sa) (num_of_byte ?da)))
      = of_nat (spec_outA (unat sa) (unat ?da))"
    using assms(3) by (rule outA_byte_stored)
  have 3: "blend_pixel canvas rgba si di =
           canvas[di := ToUint8 (outC_of (buf_get rgba si) (num_of_byte sa)
                    (buf_get canvas di) (num_of_byte ?da)),
                  di + 1 := ToUint8 (outC_of (buf_get rgba (si + 1)) (num_of_byte sa)
                    (buf_get canvas (di + 1)) (num_of_byte ?da)),
                  di + 2 := ToUint8 (outC_of (buf_get rgba (si + 2)) (num_of_byte sa)
                    (buf_get canvas (di + 2)) (num_of_byte ?da)),
                  di + 3 := ToUint8 (bor0 (outA_of (num_of_byte sa) (num_of_byte ?da)))]"
    by (simp only: blend_pixel_semi [OF assms] da st)
  from 1 2 have c: "(case Fin v of NaN \<Rightarrow> False | Fin w \<Rightarrow> of_nat (unat sa) \<le> w \<and> 0 < w)"
    by simp
  have c': "(case outA_of (num_of_byte sa) (num_of_byte ?da) of
            NaN \<Rightarrow> False | Fin w \<Rightarrow> of_nat (unat sa) \<le> w \<and> 0 < w)"
    using c by (simp only: v(1))
  show ?thesis
    unfolding da using c' g 3 by (intro conjI)
qed

theorem semi_transparent_guard_holds_witness:
  "buf_get [255, 0, 0, 128] (0 + 3) = num_of_byte 128 \<and> (0 :: byte) < 128 \<and> (128 :: byte) < 255
   \<and> 0 + 3 < length [0, 0, 255, 255 :: byte]
   \<and> gt0 (outA_of (num_of_byte 128) (buf_get [0, 0, 255, 255] (0 + 3)))"
  using semi_transparent_guard_holds [of "[255, 0, 0, 128]" 0 128 0 "[0, 0, 255, 255]"]
  by (simp add: buf_get_def)

section \<open>Pixel steps: length, frame and locality\<close>

lemma length_buf_set: "length (buf_set c i v) = length c"
  by (simp add: buf_set_def)

lemma nth_buf_set: "buf_set c i v ! j = (if j = i \<and> i < length c then ToUint8 v else c ! j)"
  by (simp add: buf_set_def)

lemma length_copy_pixel: "length (copy_pixel c rgba si di) = length c"
  by (simp add: copy_pixel_def Let_def length_buf_set)

lemma length_blend_pixel: "length (blend_pixel c rgba si di) = length c"
  by (simp add: blend_pixel_def Let_def length_buf_set)

lemma length_fill_pixel: "length (fill_pixel c p bg) = length c"
  by (cases bg) (simp add: fill_pixel_def Let_def length_buf_set)

lemma copy_pixel_outside: "j < di \<or> di + 3 < j \<Longrightarrow> copy_pixel c rgba si di ! j = c ! j"
  by (auto simp: copy_pixel_def Let_def nth_buf_set)

lemma blend_pixel_outside: "j < di \<or> di + 3 < j \<Longrightarrow> blend_pixel c rgba si di ! j = c ! j"
  by (auto simp: blend_pixel_def Let_def nth_buf_set)

lemma fill_pixel_outside: "j < p \<or> p + 3 < j \<Longrightarrow> fill_pixel c p bg ! j = c ! j"
  by (cases bg) (auto simp: fill_pixel_def Let_def nth_buf_set)

lemma copy_pixel_nth:
  "k < 4 \<Longrightarrow> di + k < length c \<Longrightarrow> copy_pixel c rgba si di ! (di + k) = ToUint8 (buf_get rgba (si + k))"
  by (auto simp: copy_pixel_def Let_def nth_buf_set length_buf_set numeral_eq_Suc less_Suc_eq)

lemma blend_pixel_cong:
  assumes g0: "buf_get c (di + 0) = buf_get c' (di + 0)"
    and g1: "buf_get c (di + 1) = buf_get c' (di + 1)"
    and g2: "buf_get c (di + 2) = buf_get c' (di + 2)"
    and g3: "buf_get c (di + 3) = buf_get c' (di + 3)"
    and len: "length c = length c'" and j: "c ! j = c' ! j"
  shows "blend_pixel c rgba si di ! j = blend_pixel c' rgba si di ! j"
  unfolding blend_pixel_def Let_def g0 g1 g2 g3
  using len j by (auto simp: nth_buf_set length_buf_set)

lemma fold_nested:
  "fold (\<lambda>y. fold (f y) xs) ys c = fold (\<lambda>(y, x). f y x) (List.product ys xs) c"
  by (induction ys arbitrary: c) (simp_all add: fold_map comp_def)

section \<open>Loops over the pixels of a patch\<close>

text \<open>A loop over pixels, each step touching only the four bytes of its own pixel.\<close>

lemma fold_pixels_length:
  assumes "\<And>p c. length (step p c) = length c"
  shows "length (fold step ps c) = length c"
  by (induction ps arbitrary: c) (simp_all add: assms)

lemma fold_pixels_outside:
  assumes frame: "\<And>p c. p \<in> set ps \<Longrightarrow> pix p \<noteq> j div 4 \<Longrightarrow> step p c ! j = c ! j"
    and out: "\<And>p. p \<in> set ps \<Longrightarrow> pix p \<noteq> j div 4"
  shows "fold step ps c ! j = c ! j"
  using assms by (induction ps arbitrary: c) simp_all

lemma fold_pixels_inside:
  assumes len: "\<And>p c. length (step p c) = length c"
    and frame: "\<And>p c i. p \<in> set ps \<Longrightarrow> pix p \<noteq> i div 4 \<Longrightarrow> step p c ! i = c ! i"
    and loc: "\<And>c c'. length c = length c' \<Longrightarrow>
                (\<And>i. i div 4 = pix p \<Longrightarrow> c ! i = c' ! i) \<Longrightarrow> step p c ! j = step p c' ! j"
    and dist: "distinct (map pix ps)"
    and p: "p \<in> set ps" and j: "j div 4 = pix p"
  shows "fold step ps c ! j = step p c ! j"
  using frame dist p
proof (induction ps arbitrary: c)
  case Nil
  then show ?case by simp
next
  case (Cons q qs)
  show ?case
  proof (cases "p = q")
    case True
    have "fold step qs (step q c) ! j = step q c ! j"
    proof (rule fold_pixels_outside [where pix = pix])
      fix r c' assume "r \<in> set qs" "pix r \<noteq> j div 4"
      then show "step r c' ! j = c' ! j" using Cons.prems(1) [of r j c'] by simp
    next
      fix r assume r: "r \<in> set qs"
      have "pix q \<notin> pix ` set qs" using Cons.prems(2) by simp
      then have "pix r \<noteq> pix q" using r by (metis imageI)
      then show "pix r \<noteq> j div 4" using True j by simp
    qed
    then show ?thesis using True by simp
  next
    case False
    then have pq: "p \<in> set qs" using Cons.prems(3) by simp
    have "pix q \<notin> pix ` set qs" using Cons.prems(2) by simp
    then have ne: "pix q \<noteq> pix p" using pq by (metis imageI)
    have "fold step qs (step q c) ! j = step p (step q c) ! j"
    proof (rule Cons.IH)
      show "step r d ! i = d ! i" if "r \<in> set qs" "pix r \<noteq> i div 4" for r d i
        using Cons.prems(1) [of r i d] that by simp
      show "distinct (map pix qs)" using Cons.prems(2) by simp
      show "p \<in> set qs" by (rule pq)
    qed
    also have "step p (step q c) ! j = step p c ! j"
    proof (rule loc)
      show "length (step q c) = length c" by (rule len)
      fix i assume "i div 4 = pix p"
      then show "step q c ! i = c ! i" using ne Cons.prems(1) [of q i c] by simp
    qed
    finally show ?thesis by simp
  qed
qed

text \<open>The pixel that patch position \<open>(y, x)\<close> is written to, and when positions collide.\<close>

lemma pixel_index_inj:
  assumes "x0 + fw \<le> width" "x < fw" "x' < fw"
    and "(y0 + y) * width + (x0 + x) = (y0 + y') * width + (x0 + x')"
  shows "y = y' \<and> x = (x' :: nat)"
proof -
  have w: "x0 + x < width" "x0 + x' < width" using assms(1-3) by simp_all
  have 1: "((y0 + y) * width + (x0 + x)) div width = y0 + y" using w(1) by simp
  have 2: "((y0 + y') * width + (x0 + x')) div width = y0 + y'" using w(2) by simp
  have "y0 + y = y0 + y'" using 1 2 by (simp only: assms(4))
  then have y: "y = y'" by (simp only: add_left_cancel)
  have "x0 + x = x0 + x'" using assms(4) unfolding y by (simp only: add_left_cancel)
  then show ?thesis using y by simp
qed

lemma distinct_patch_pixels:
  assumes "x0 + fw \<le> width"
  shows "distinct (map (\<lambda>(y, x). (y0 + y) * width + (x0 + x)) (List.product [0..<fh] [0..<fw]))"
proof -
  let ?f = "\<lambda>(y, x). (y0 + y) * width + (x0 + x)"
  have "inj_on ?f (set (List.product [0..<fh] [0..<fw]))"
  proof (rule inj_onI)
    fix a b
    assume a: "a \<in> set (List.product [0..<fh] [0..<fw])"
      and b: "b \<in> set (List.product [0..<fh] [0..<fw])" and e: "?f a = ?f b"
    obtain y x where ax: "a = (y, x)" by (cases a)
    obtain y' x' where bx: "b = (y', x')" by (cases b)
    have "x < fw" "x' < fw" using a b by (simp_all add: ax bx)
    moreover have "(y0 + y) * width + (x0 + x) = (y0 + y') * width + (x0 + x')"
      using e unfolding ax bx by (simp only: prod.case)
    ultimately have "y = y' \<and> x = x'" by (rule pixel_index_inj [OF assms])
    then show "a = b" by (simp add: ax bx)
  qed
  moreover have "distinct (List.product [0..<fh] [0..<fw])"
    by (intro distinct_product) simp_all
  ultimately show ?thesis by (simp only: distinct_map)
qed

lemma copy_pixel_cong:
  assumes "length c = length c'" "c ! j = c' ! j"
  shows "copy_pixel c rgba si di ! j = copy_pixel c' rgba si di ! j"
  using assms by (auto simp: copy_pixel_def Let_def nth_buf_set length_buf_set)

lemma window_outside: "i div 4 \<noteq> p \<Longrightarrow> i < p * 4 \<or> p * 4 + 3 < (i::nat)"
  by arith

lemma window_inside: "k < 4 \<Longrightarrow> (p * 4 + k) div 4 = (p::nat)"
  by simp

lemma draw_patch_flat:
  "draw_patch canvas width x0 y0 fw fh blend rgba =
     fold (patch_step blend rgba width x0 y0 fw) (List.product [0..<fh] [0..<fw]) canvas"
  by (simp add: draw_patch_def fold_nested patch_step_def)

lemma length_patch_step: "length (patch_step blend rgba width x0 y0 fw p c) = length c"
  by (cases p) (simp add: patch_step_def length_blend_pixel length_copy_pixel)

lemma patch_step_outside:
  assumes "(\<lambda>(y, x). (y0 + y) * width + (x0 + x)) p \<noteq> i div 4"
  shows "patch_step blend rgba width x0 y0 fw p c ! i = c ! i"
proof -
  obtain y x where p: "p = (y, x)" by (cases p)
  have "i < ((y0 + y) * width + (x0 + x)) * 4 \<or> ((y0 + y) * width + (x0 + x)) * 4 + 3 < i"
    using assms unfolding p prod.case by (intro window_outside) simp
  then show ?thesis
    unfolding p patch_step_def prod.case
    by (simp add: blend_pixel_outside copy_pixel_outside)
qed

lemma patch_step_local:
  assumes len: "length c = length c'"
    and eq: "\<And>i. i div 4 = (\<lambda>(y, x). (y0 + y) * width + (x0 + x)) p \<Longrightarrow> c ! i = c' ! i"
    and j: "j div 4 = (\<lambda>(y, x). (y0 + y) * width + (x0 + x)) p"
  shows "patch_step blend rgba width x0 y0 fw p c ! j = patch_step blend rgba width x0 y0 fw p c' ! j"
proof -
  obtain y x where p: "p = (y, x)" by (cases p)
  let ?di = "((y0 + y) * width + (x0 + x)) * 4"
  have w: "c ! (?di + k) = c' ! (?di + k)" if "k < 4" for k
    using that by (intro eq) (simp add: p)
  have g: "buf_get c (?di + k) = buf_get c' (?di + k)" if "k < 4" for k
    using w [OF that] len by (simp add: buf_get_def)
  have cj: "c ! j = c' ! j" by (rule eq [OF j])
  have b: "blend_pixel c rgba si ?di ! j = blend_pixel c' rgba si ?di ! j" for si
    by (rule blend_pixel_cong [OF g g g g len cj]) simp_all
  have a: "copy_pixel c rgba si ?di ! j = copy_pixel c' rgba si ?di ! j" for si
    using len cj by (rule copy_pixel_cong)
  show ?thesis
    unfolding p patch_step_def prod.case using a b by simp
qed

lemma length_draw_patch: "length (draw_patch canvas width x0 y0 fw fh blend rgba) = length canvas"
  unfolding draw_patch_flat by (rule fold_pixels_length) (rule length_patch_step)

lemma draw_patch_outside:
  assumes "\<And>y x. y < fh \<Longrightarrow> x < fw \<Longrightarrow> (y0 + y) * width + (x0 + x) \<noteq> j div 4"
  shows "draw_patch canvas width x0 y0 fw fh blend rgba ! j = canvas ! j"
  unfolding draw_patch_flat
proof (rule fold_pixels_outside [where pix = "\<lambda>(y, x). (y0 + y) * width + (x0 + x)"])
  fix p c
  assume "(\<lambda>(y, x). (y0 + y) * width + (x0 + x)) p \<noteq> j div 4"
  then show "patch_step blend rgba width x0 y0 fw p c ! j = c ! j" by (rule patch_step_outside)
next
  fix p :: "nat \<times> nat"
  assume p: "p \<in> set (List.product [0..<fh] [0..<fw])"
  obtain y x where yx: "p = (y, x)" by (cases p)
  have "(y0 + y) * width + (x0 + x) \<noteq> j div 4" using p by (intro assms) (simp_all add: yx)
  then show "(\<lambda>(y, x). (y0 + y) * width + (x0 + x)) p \<noteq> j div 4" by (simp add: yx)
qed

lemma draw_patch_inside:
  assumes fit: "x0 + fw \<le> width" and x: "x < fw" and y: "y < fh" and k: "k < 4"
  shows "draw_patch canvas width x0 y0 fw fh blend rgba ! (((y0 + y) * width + (x0 + x)) * 4 + k)
       = patch_step blend rgba width x0 y0 fw (y, x) canvas ! (((y0 + y) * width + (x0 + x)) * 4 + k)"
  unfolding draw_patch_flat
proof (rule fold_pixels_inside [where pix = "\<lambda>(y, x). (y0 + y) * width + (x0 + x)"])
  have idx: "(((y0 + y) * width + (x0 + x)) * 4 + k) div 4
      = (case (y, x) of (y, x) \<Rightarrow> (y0 + y) * width + (x0 + x))"
    unfolding split_conv using k by (rule window_inside)
  show "length (patch_step blend rgba width x0 y0 fw p c) = length c" for p c
    by (rule length_patch_step)
  show "patch_step blend rgba width x0 y0 fw p c ! i = c ! i"
    if "(\<lambda>(y, x). (y0 + y) * width + (x0 + x)) p \<noteq> i div 4" for p c i
    using that by (rule patch_step_outside)
  show "patch_step blend rgba width x0 y0 fw (y, x) c ! (((y0 + y) * width + (x0 + x)) * 4 + k)
      = patch_step blend rgba width x0 y0 fw (y, x) c' ! (((y0 + y) * width + (x0 + x)) * 4 + k)"
    if "length c = length c'"
      "\<And>i. i div 4 = (\<lambda>(y, x). (y0 + y) * width + (x0 + x)) (y, x) \<Longrightarrow> c ! i = c' ! i" for c c'
    using that idx by (rule patch_step_local)
  show "distinct (map (\<lambda>(y, x). (y0 + y) * width + (x0 + x)) (List.product [0..<fh] [0..<fw]))"
    using fit by (rule distinct_patch_pixels)
  show "(y, x) \<in> set (List.product [0..<fh] [0..<fw])" using x y by simp
  show "(((y0 + y) * width + (x0 + x)) * 4 + k) div 4 = (\<lambda>(y, x). (y0 + y) * width + (x0 + x)) (y, x)"
    by (rule idx)
qed

lemma row_major_unique:
  assumes "b < w" "b' < w" "a * w + b = a' * w + (b' :: nat)"
  shows "a = a' \<and> b = b'"
proof -
  have 1: "(a * w + b) div w = a" using assms(1) by simp
  have 2: "(a' * w + b') div w = a'" using assms(2) by simp
  have a: "a = a'" using 1 2 by (simp only: assms(3))
  have "a * w + b = a * w + b'" using assms(3) unfolding a .
  then have "b = b'" by (simp only: add_left_cancel)
  with a show ?thesis by simp
qed

lemma pixel_index_less:
  assumes "X < width" "Y < height"
  shows "Y * width + X < width * (height :: nat)"
proof -
  have "Y * width + X < Y * width + width" using assms(1) by simp
  also have "\<dots> = (Y + 1) * width" by simp
  also have "\<dots> \<le> height * width" using assms(2) by (intro mult_le_mono1) simp
  finally show ?thesis by (simp add: mult.commute)
qed

lemma outside_region_no_hit:
  assumes fit: "x0 + fw \<le> width" and X: "X < width"
    and out: "\<not> in_region x0 y0 fw fh X Y" and y: "y < fh" and x: "x < fw"
  shows "(y0 + y) * width + (x0 + x) \<noteq> Y * width + X"
proof
  assume e: "(y0 + y) * width + (x0 + x) = Y * width + X"
  have "x0 + x < width" using fit x by simp
  from this X e have "y0 + y = Y \<and> x0 + x = X" by (rule row_major_unique)
  then have "in_region x0 y0 fw fh X Y" using x y by (auto simp: in_region_def)
  with out show False by simp
qed

lemma fill_pixel_nth:
  assumes "k < 4" "q * 4 + k < length c"
  shows "fill_pixel c (q * 4) (r, g, b, a) ! (q * 4 + k) = [r, g, b, a] ! k"
  using assms
  by (auto simp: fill_pixel_def Let_def nth_buf_set length_buf_set ToUint8_num_of_byte
      numeral_eq_Suc less_Suc_eq)

lemma fill_pixel_keep:
  assumes "k < 4" "q * 4 + k < length c" "c ! (q * 4 + k) = [r, g, b, a] ! k"
  shows "fill_pixel c (p * 4) (r, g, b, a) ! (q * 4 + k) = [r, g, b, a] ! k"
proof (cases "p = q")
  case True
  then show ?thesis using assms(1,2) by (simp only: fill_pixel_nth)
next
  case False
  have "(q * 4 + k) div 4 \<noteq> p" using False assms(1) by simp
  then have "q * 4 + k < p * 4 \<or> p * 4 + 3 < q * 4 + k" by (rule window_outside)
  then show ?thesis using assms(3) by (simp only: fill_pixel_outside)
qed

lemma fold_fill_keep:
  assumes "k < 4" "q * 4 + k < length c" "c ! (q * 4 + k) = [r, g, b, a] ! k"
  shows "fold (\<lambda>p c. fill_pixel c (pix p * 4) (r, g, b, a)) ps c ! (q * 4 + k) = [r, g, b, a] ! k"
  using assms
proof (induction ps arbitrary: c)
  case Nil
  then show ?case by simp
next
  case (Cons p ps)
  have "fold (\<lambda>p c. fill_pixel c (pix p * 4) (r, g, b, a)) ps (fill_pixel c (pix p * 4) (r, g, b, a)) ! (q * 4 + k)
      = [r, g, b, a] ! k"
  proof (rule Cons.IH)
    show "k < 4" by (rule Cons.prems(1))
    show "q * 4 + k < length (fill_pixel c (pix p * 4) (r, g, b, a))"
      using Cons.prems(2) by (simp only: length_fill_pixel)
    show "fill_pixel c (pix p * 4) (r, g, b, a) ! (q * 4 + k) = [r, g, b, a] ! k"
      using Cons.prems by (rule fill_pixel_keep)
  qed
  then show ?case by simp
qed

lemma fold_fill_inside:
  assumes "p \<in> set ps" "pix p = q" "k < 4" "q * 4 + k < length c"
  shows "fold (\<lambda>p c. fill_pixel c (pix p * 4) (r, g, b, a)) ps c ! (q * 4 + k) = [r, g, b, a] ! k"
  using assms
proof (induction ps arbitrary: c)
  case Nil
  then show ?case by simp
next
  case (Cons p' ps)
  let ?c1 = "fill_pixel c (pix p' * 4) (r, g, b, a)"
  have len: "q * 4 + k < length ?c1" using Cons.prems(4) by (simp only: length_fill_pixel)
  show ?case
  proof (cases "pix p' = q")
    case True
    have "?c1 ! (q * 4 + k) = [r, g, b, a] ! k"
      unfolding True using Cons.prems(3,4) by (rule fill_pixel_nth)
    with Cons.prems(3) len
    have "fold (\<lambda>p c. fill_pixel c (pix p * 4) (r, g, b, a)) ps ?c1 ! (q * 4 + k) = [r, g, b, a] ! k"
      by (rule fold_fill_keep)
    then show ?thesis by simp
  next
    case False
    then have "p \<in> set ps" using Cons.prems(1,2) by auto
    from this Cons.prems(2,3) len
    have "fold (\<lambda>p c. fill_pixel c (pix p * 4) (r, g, b, a)) ps ?c1 ! (q * 4 + k) = [r, g, b, a] ! k"
      by (rule Cons.IH)
    then show ?thesis by simp
  qed
qed

lemma clear_region_flat:
  "clear_region canvas width x0 y0 fw fh bg =
     fold (\<lambda>p c. fill_pixel c ((\<lambda>(y, x). (y0 + y) * width + (x0 + x)) p * 4) bg)
       (List.product [0..<fh] [0..<fw]) canvas"
proof -
  have e: "(y0 + y) * width * 4 + x0 * 4 + x * 4 = ((y0 + y) * width + (x0 + x)) * 4" for y x
    by (simp add: algebra_simps)
  have "(\<lambda>(y, x) c. fill_pixel c ((y0 + y) * width * 4 + x0 * 4 + x * 4) bg)
      = (\<lambda>p c. fill_pixel c ((\<lambda>(y, x). (y0 + y) * width + (x0 + x)) p * 4) bg)"
    by (rule ext) (simp only: e split_beta)
  then show ?thesis by (simp only: clear_region_def fold_nested)
qed

lemma length_clear_region: "length (clear_region canvas width x0 y0 fw fh bg) = length canvas"
  unfolding clear_region_flat by (rule fold_pixels_length) (rule length_fill_pixel)

lemma clear_region_inside:
  assumes reg: "in_region x0 y0 fw fh X Y" and k: "k < 4"
    and len: "(Y * width + X) * 4 + k < length canvas"
  shows "clear_region canvas width x0 y0 fw fh (r, g, b, a) ! ((Y * width + X) * 4 + k) = [r, g, b, a] ! k"
  unfolding clear_region_flat
proof (rule fold_fill_inside [where p = "(Y - y0, X - x0)"])
  show "(Y - y0, X - x0) \<in> set (List.product [0..<fh] [0..<fw])"
    using reg by (auto simp: in_region_def)
  show "(case (Y - y0, X - x0) of (y, x) \<Rightarrow> (y0 + y) * width + (x0 + x)) = Y * width + X"
    using reg by (simp add: in_region_def)
  show "k < 4" by (rule k)
  show "(Y * width + X) * 4 + k < length canvas" by (rule len)
qed

lemma clear_region_outside:
  assumes fit: "x0 + fw \<le> width" and X: "X < width"
    and out: "\<not> in_region x0 y0 fw fh X Y" and k: "k < 4"
  shows "clear_region canvas width x0 y0 fw fh bg ! ((Y * width + X) * 4 + k) = canvas ! ((Y * width + X) * 4 + k)"
  unfolding clear_region_flat
proof (rule fold_pixels_outside [where pix = "\<lambda>(y, x). (y0 + y) * width + (x0 + x)"])
  fix p c i
  assume "(\<lambda>(y, x). (y0 + y) * width + (x0 + x)) p \<noteq> ((Y * width + X) * 4 + k) div 4"
  then have "(Y * width + X) * 4 + k < (\<lambda>(y, x). (y0 + y) * width + (x0 + x)) p * 4
      \<or> (\<lambda>(y, x). (y0 + y) * width + (x0 + x)) p * 4 + 3 < (Y * width + X) * 4 + k"
    by (intro window_outside) simp
  then show "fill_pixel c ((\<lambda>(y, x). (y0 + y) * width + (x0 + x)) p * 4) bg ! ((Y * width + X) * 4 + k)
      = c ! ((Y * width + X) * 4 + k)"
    by (rule fill_pixel_outside)
next
  fix p :: "nat \<times> nat"
  assume p: "p \<in> set (List.product [0..<fh] [0..<fw])"
  obtain y x where yx: "p = (y, x)" by (cases p)
  have "y < fh" "x < fw" using p by (simp_all add: yx)
  with fit X out have "(y0 + y) * width + (x0 + x) \<noteq> Y * width + X"
    by (rule outside_region_no_hit)
  then show "(\<lambda>(y, x). (y0 + y) * width + (x0 + x)) p \<noteq> ((Y * width + X) * 4 + k) div 4"
    using k by (simp add: yx)
qed

lemma draw_patch_outside_region:
  assumes fit: "x0 + fw \<le> width" and X: "X < width"
    and out: "\<not> in_region x0 y0 fw fh X Y" and k: "k < 4"
  shows "draw_patch canvas width x0 y0 fw fh blend rgba ! ((Y * width + X) * 4 + k) = canvas ! ((Y * width + X) * 4 + k)"
proof (rule draw_patch_outside)
  fix y x assume "y < fh" "x < fw"
  with fit X out have "(y0 + y) * width + (x0 + x) \<noteq> Y * width + X"
    by (rule outside_region_no_hit)
  then show "(y0 + y) * width + (x0 + x) \<noteq> ((Y * width + X) * 4 + k) div 4"
    using k by simp
qed

section \<open>One frame: position, overwrite, dispose and bounds\<close>

lemma num_of_byte_eq_iff: "num_of_byte b = Fin (of_nat n) \<longleftrightarrow> unat b = n"
  unfolding num_of_byte_def by (simp only: num.inject of_nat_eq_iff)

lemma num_of_byte_255: "num_of_byte b = Fin 255 \<longleftrightarrow> b = 255"
proof -
  have "num_of_byte b = Fin (of_nat 255) \<longleftrightarrow> unat b = 255" by (rule num_of_byte_eq_iff)
  moreover have "unat b = 255 \<longleftrightarrow> b = 255" by (simp add: word_unat_eq_iff)
  ultimately show ?thesis by simp
qed

lemma num_of_byte_0: "num_of_byte b = Fin 0 \<longleftrightarrow> b = 0"
proof -
  have "num_of_byte b = Fin (of_nat 0) \<longleftrightarrow> unat b = 0" by (rule num_of_byte_eq_iff)
  then show ?thesis by (simp add: unat_eq_0)
qed

text \<open>The byte that one step of either branch leaves in the destination pixel.\<close>

lemma patch_step_byte:
  assumes si: "(y * fw + x) * 4 + 3 < length rgba"
    and di: "((y0 + y) * width + (x0 + x)) * 4 + 3 < length canvas" and k: "k < 4"
  shows "patch_step blend rgba width x0 y0 fw (y, x) canvas ! (((y0 + y) * width + (x0 + x)) * 4 + k)
       = (if \<not> blend then rgba ! ((y * fw + x) * 4 + k)
          else if rgba ! ((y * fw + x) * 4 + 3) = 255
            then (if k = 3 then 255 else rgba ! ((y * fw + x) * 4 + k))
          else if rgba ! ((y * fw + x) * 4 + 3) = 0
            then canvas ! (((y0 + y) * width + (x0 + x)) * 4 + k)
          else if k = 3
            then of_nat (spec_outA (unat (rgba ! ((y * fw + x) * 4 + 3)))
                   (unat (canvas ! (((y0 + y) * width + (x0 + x)) * 4 + 3))))
          else ToUint8 (outC_of (num_of_byte (rgba ! ((y * fw + x) * 4 + k)))
                 (num_of_byte (rgba ! ((y * fw + x) * 4 + 3)))
                 (num_of_byte (canvas ! (((y0 + y) * width + (x0 + x)) * 4 + k)))
                 (num_of_byte (canvas ! (((y0 + y) * width + (x0 + x)) * 4 + 3)))))"
proof -
  define s where "s = (y * fw + x) * 4"
  define d where "d = ((y0 + y) * width + (x0 + x)) * 4"
  define sa where "sa = rgba ! (s + 3)"
  have si': "s + 3 < length rgba" and di': "d + 3 < length canvas"
    using si di by (simp_all only: s_def d_def)
  have ps: "patch_step blend rgba width x0 y0 fw (y, x) canvas
      = (if blend then blend_pixel canvas rgba s d else copy_pixel canvas rgba s d)"
    by (simp only: patch_step_def prod.case s_def d_def)
  have sk: "buf_get rgba (s + k) = num_of_byte (rgba ! (s + k))"
    using si' k by (simp add: buf_get_def)
  have s3: "buf_get rgba (s + 3) = num_of_byte sa"
    using si' by (simp add: buf_get_def sa_def)
  have dk: "d + k < length canvas" using di' k by simp
  have cp: "copy_pixel canvas rgba s d ! (d + k) = rgba ! (s + k)"
    using copy_pixel_nth [OF k dk, of rgba s] by (simp only: sk ToUint8_num_of_byte)
  have "(if blend then blend_pixel canvas rgba s d else copy_pixel canvas rgba s d) ! (d + k)
       = (if \<not> blend then rgba ! (s + k)
          else if sa = 255 then (if k = 3 then 255 else rgba ! (s + k))
          else if sa = 0 then canvas ! (d + k)
          else if k = 3 then of_nat (spec_outA (unat sa) (unat (canvas ! (d + 3))))
          else ToUint8 (outC_of (num_of_byte (rgba ! (s + k))) (num_of_byte sa)
                 (num_of_byte (canvas ! (d + k))) (num_of_byte (canvas ! (d + 3)))))"
  proof (cases blend)
    case False
    then show ?thesis by (simp add: cp)
  next
    case True
    consider "sa = 255" | "sa = 0" | "sa \<noteq> 255" "sa \<noteq> 0" by blast
    then show ?thesis
    proof cases
      case 1
      then have o: "buf_get rgba (s + 3) = Fin 255" by (simp only: s3 num_of_byte_255)
      have e: "blend_pixel canvas rgba s d = copy_pixel canvas rgba s d"
        using o by (simp add: blend_pixel_def copy_pixel_def)
      have "rgba ! (s + k) = 255" if "k = 3" using that 1 by (simp add: sa_def)
      then show ?thesis using True 1 by (simp add: e cp)
    next
      case 2
      then have z: "buf_get rgba (s + 3) = Fin 0" by (simp only: s3 num_of_byte_0)
      have e: "blend_pixel canvas rgba s d = canvas"
        using z by (simp add: blend_pixel_def)
      show ?thesis using True 2 by (simp add: e)
    next
      case 3
      have lo: "0 < sa" using 3(2) by (simp add: word_greater_zero_iff)
      have "sa \<le> 255" using unat_byte_le [of sa] by (simp add: word_le_nat_alt)
      with 3(1) have hi: "sa < 255" by simp
      show ?thesis
      proof (cases "k = 3")
        case True
        have "blend_pixel canvas rgba s d ! (d + 3)
            = of_nat (spec_outA (unat sa) (unat (canvas ! (d + 3))))"
          using di' by (simp add: blend_pixel_semi [OF s3 lo hi di'])
        then show ?thesis using \<open>blend\<close> 3 True by simp
      next
        case False
        with k have k3: "k < 3" by simp
        note n = blend_pixel_semi_nth [OF s3 lo hi di' k3]
        show ?thesis using \<open>blend\<close> 3 False by (simp add: n)
      qed
    qed
  qed
  then show ?thesis by (simp only: ps sa_def s_def d_def)
qed

lemma snapshot_process_frame:
  "png_data (snd (fst (process_frame width height bg i fm rgba canvas)))
     = draw_patch canvas width (js_or (f_x fm) 0 * 2) (js_or (f_y fm) 0 * 2)
         (f_width fm) (f_height fm) (f_blend fm) rgba"
  by (simp add: process_frame_def Let_def)

lemma next_canvas_process_frame:
  "snd (process_frame width height bg i fm rgba canvas)
     = (if f_dispose fm
        then clear_region (draw_patch canvas width (js_or (f_x fm) 0 * 2) (js_or (f_y fm) 0 * 2)
               (f_width fm) (f_height fm) (f_blend fm) rgba)
               width (js_or (f_x fm) 0 * 2) (js_or (f_y fm) 0 * 2) (f_width fm) (f_height fm) bg
        else draw_patch canvas width (js_or (f_x fm) 0 * 2) (js_or (f_y fm) 0 * 2)
               (f_width fm) (f_height fm) (f_blend fm) rgba)"
  by (simp add: process_frame_def Let_def)

text \<open>
  C2. For every frame with stored offset \<open>(ox, oy)\<close> (a missing offset counts as 0) the
  patch is drawn with the offset \<open>(ox * 2, oy * 2)\<close>, whatever the other fields of the frame
  are. For a patch that lies inside the canvas, pixel \<open>(x, y)\<close> of the patch lands on canvas
  pixel \<open>(ox * 2 + x, oy * 2 + y)\<close> of the snapshot: there the snapshot holds the bytes of
  the patch pixel when the frame does not blend or the pixel is opaque (then with alpha
  255), the bytes of the previous canvas when the pixel is transparent, and the blend of
  the two otherwise. A pixel outside the region with top-left corner \<open>(ox * 2, oy * 2)\<close>
  keeps the bytes of the previous canvas. On a canvas of 3 by 3 pixels a patch of one pixel
  with stored offset \<open>(1, 1)\<close> changes pixel \<open>(2, 2)\<close>, the last one, and nothing else.
\<close>

theorem patch_drawn_at_doubled_offset:
  assumes "js_or (f_x fm) 0 = ox" and "js_or (f_y fm) 0 = oy"
  shows "png_data (snd (fst (process_frame width height bg i fm rgba canvas)))
           = draw_patch canvas width (ox * 2) (oy * 2) (f_width fm) (f_height fm) (f_blend fm) rgba
       \<and> (ox * 2 + f_width fm \<le> width \<and> oy * 2 + f_height fm \<le> height
            \<and> length canvas = width * height * 4 \<and> length rgba = f_width fm * f_height fm * 4
            \<and> x < f_width fm \<and> y < f_height fm \<and> k < 4 \<longrightarrow>
          png_data (snd (fst (process_frame width height bg i fm rgba canvas)))
              ! (((oy * 2 + y) * width + (ox * 2 + x)) * 4 + k)
            = (if \<not> f_blend fm then rgba ! ((y * f_width fm + x) * 4 + k)
               else if rgba ! ((y * f_width fm + x) * 4 + 3) = 255
                 then (if k = 3 then 255 else rgba ! ((y * f_width fm + x) * 4 + k))
               else if rgba ! ((y * f_width fm + x) * 4 + 3) = 0
                 then canvas ! (((oy * 2 + y) * width + (ox * 2 + x)) * 4 + k)
               else if k = 3
                 then of_nat (spec_outA (unat (rgba ! ((y * f_width fm + x) * 4 + 3)))
                        (unat (canvas ! (((oy * 2 + y) * width + (ox * 2 + x)) * 4 + 3))))
               else ToUint8 (outC_of (num_of_byte (rgba ! ((y * f_width fm + x) * 4 + k)))
                      (num_of_byte (rgba ! ((y * f_width fm + x) * 4 + 3)))
                      (num_of_byte (canvas ! (((oy * 2 + y) * width + (ox * 2 + x)) * 4 + k)))
                      (num_of_byte (canvas ! (((oy * 2 + y) * width + (ox * 2 + x)) * 4 + 3))))))
       \<and> (ox * 2 + f_width fm \<le> width \<and> X < width \<and> k < 4
            \<and> \<not> in_region (ox * 2) (oy * 2) (f_width fm) (f_height fm) X Y \<longrightarrow>
          png_data (snd (fst (process_frame width height bg i fm rgba canvas)))
              ! ((Y * width + X) * 4 + k)
            = canvas ! ((Y * width + X) * 4 + k))
       \<and> png_data (snd (fst (process_frame 3 3 (0, 0, 0, 0) 0
            \<lparr>f_x = Some 1, f_y = Some 1, f_width = 1, f_height = 1, f_blend = False,
              f_dispose = False, f_delay = None\<rparr>
            [9, 8, 7, 255]
            [0, 0, 0, 0, 0, 0, 0, 0, 0, 0, 0, 0, 0, 0, 0, 0, 0, 0, 0, 0, 0, 0, 0, 0, 0, 0, 0, 0, 0, 0, 0, 0, 0, 0, 0, 0])))
           = [0, 0, 0, 0, 0, 0, 0, 0, 0, 0, 0, 0, 0, 0, 0, 0, 0, 0, 0, 0, 0, 0, 0, 0, 0, 0, 0, 0, 0, 0, 0, 0,
              9, 8, 7, 255]"
proof -
  let ?snap = "png_data (snd (fst (process_frame width height bg i fm rgba canvas)))"
  have 1: "?snap
      = draw_patch canvas width (ox * 2) (oy * 2) (f_width fm) (f_height fm) (f_blend fm) rgba"
    by (simp only: snapshot_process_frame assms)
  have 2: "?snap ! (((oy * 2 + y) * width + (ox * 2 + x)) * 4 + k)
            = (if \<not> f_blend fm then rgba ! ((y * f_width fm + x) * 4 + k)
               else if rgba ! ((y * f_width fm + x) * 4 + 3) = 255
                 then (if k = 3 then 255 else rgba ! ((y * f_width fm + x) * 4 + k))
               else if rgba ! ((y * f_width fm + x) * 4 + 3) = 0
                 then canvas ! (((oy * 2 + y) * width + (ox * 2 + x)) * 4 + k)
               else if k = 3
                 then of_nat (spec_outA (unat (rgba ! ((y * f_width fm + x) * 4 + 3)))
                        (unat (canvas ! (((oy * 2 + y) * width + (ox * 2 + x)) * 4 + 3))))
               else ToUint8 (outC_of (num_of_byte (rgba ! ((y * f_width fm + x) * 4 + k)))
                      (num_of_byte (rgba ! ((y * f_width fm + x) * 4 + 3)))
                      (num_of_byte (canvas ! (((oy * 2 + y) * width + (ox * 2 + x)) * 4 + k)))
                      (num_of_byte (canvas ! (((oy * 2 + y) * width + (ox * 2 + x)) * 4 + 3)))))"
    if h: "ox * 2 + f_width fm \<le> width \<and> oy * 2 + f_height fm \<le> height
            \<and> length canvas = width * height * 4 \<and> length rgba = f_width fm * f_height fm * 4
            \<and> x < f_width fm \<and> y < f_height fm \<and> k < 4"
  proof -
    from h have fitx: "ox * 2 + f_width fm \<le> width" and fity: "oy * 2 + f_height fm \<le> height"
      and lc: "length canvas = width * height * 4"
      and lr: "length rgba = f_width fm * f_height fm * 4"
      and x: "x < f_width fm" and y: "y < f_height fm" and k: "k < 4"
      by simp_all
    have "(oy * 2 + y) * width + (ox * 2 + x) < width * height"
      using fitx fity x y by (intro pixel_index_less) simp_all
    then have di: "((oy * 2 + y) * width + (ox * 2 + x)) * 4 + 3 < length canvas"
      by (simp add: lc)
    have "y * f_width fm + x < f_width fm * f_height fm"
      using x y by (rule pixel_index_less)
    then have si: "(y * f_width fm + x) * 4 + 3 < length rgba"
      by (simp add: lr)
    show ?thesis
      using draw_patch_inside [OF fitx x y k, of canvas "oy * 2" "f_blend fm" rgba]
      by (simp only: 1 patch_step_byte [OF si di k])
  qed
  have 3: "?snap ! ((Y * width + X) * 4 + k) = canvas ! ((Y * width + X) * 4 + k)"
    if h: "ox * 2 + f_width fm \<le> width \<and> X < width \<and> k < 4
            \<and> \<not> in_region (ox * 2) (oy * 2) (f_width fm) (f_height fm) X Y"
  proof -
    from h have fit: "ox * 2 + f_width fm \<le> width" and X: "X < width" and k: "k < 4"
      and out: "\<not> in_region (ox * 2) (oy * 2) (f_width fm) (f_height fm) X Y"
      by simp_all
    show ?thesis
      using draw_patch_outside_region [OF fit X out k] by (simp only: 1)
  qed
  have 4: "png_data (snd (fst (process_frame 3 3 (0, 0, 0, 0) 0
            \<lparr>f_x = Some 1, f_y = Some 1, f_width = 1, f_height = 1, f_blend = False,
              f_dispose = False, f_delay = None\<rparr>
            [9, 8, 7, 255]
            [0, 0, 0, 0, 0, 0, 0, 0, 0, 0, 0, 0, 0, 0, 0, 0, 0, 0, 0, 0, 0, 0, 0, 0, 0, 0, 0, 0, 0, 0, 0, 0, 0, 0, 0, 0])))
           = [0, 0, 0, 0, 0, 0, 0, 0, 0, 0, 0, 0, 0, 0, 0, 0, 0, 0, 0, 0, 0, 0, 0, 0, 0, 0, 0, 0, 0, 0, 0, 0,
              9, 8, 7, 255]"
    by (simp add: process_frame_def js_or_def draw_patch_def copy_pixel_def
        buf_set_def buf_get_def ToUint8_num_of_byte Let_def)
  from 1 2 3 4 show ?thesis by (intro conjI impI)
qed

text \<open>
  C6. For a frame with \<^verbatim>\<open>blend === false\<close> that lies inside the canvas, each of the four
  bytes of every pixel of the patch region is the corresponding byte of the patch buffer.
\<close>

theorem noblend_copies_patch:
  assumes "\<not> f_blend fm"
    and "js_or (f_x fm) 0 = ox" and "js_or (f_y fm) 0 = oy"
    and "ox * 2 + f_width fm \<le> width" and "oy * 2 + f_height fm \<le> height"
    and "length canvas = width * height * 4" and "length rgba = f_width fm * f_height fm * 4"
    and "x < f_width fm" and "y < f_height fm" and "k < 4"
  shows "png_data (snd (fst (process_frame width height bg i fm rgba canvas)))
           ! (((oy * 2 + y) * width + (ox * 2 + x)) * 4 + k)
         = rgba ! ((y * f_width fm + x) * 4 + k)"
proof -
  let ?di = "((oy * 2 + y) * width + (ox * 2 + x)) * 4"
  let ?si = "(y * f_width fm + x) * 4"
  have "(oy * 2 + y) * width + (ox * 2 + x) < width * height"
    using assms(4,5,8,9) by (intro pixel_index_less) simp_all
  then have di: "?di + k < length canvas" using assms(6,10) by simp
  have "y * f_width fm + x < f_width fm * f_height fm"
    using assms(8,9) by (rule pixel_index_less)
  then have si: "?si + k < length rgba" using assms(7,10) by simp
  have "png_data (snd (fst (process_frame width height bg i fm rgba canvas))) ! (?di + k)
      = patch_step (f_blend fm) rgba width (ox * 2) (oy * 2) (f_width fm) (y, x) canvas ! (?di + k)"
    using draw_patch_inside [OF assms(4,8,9,10), of canvas "oy * 2" "f_blend fm" rgba]
    by (simp only: snapshot_process_frame assms(2,3))
  also have "\<dots> = copy_pixel canvas rgba ?si ?di ! (?di + k)"
    using assms(1) by (simp add: patch_step_def)
  also have "\<dots> = ToUint8 (buf_get rgba (?si + k))"
    using assms(10) di by (rule copy_pixel_nth)
  also have "\<dots> = rgba ! (?si + k)"
    using si by (simp add: buf_get_def ToUint8_num_of_byte)
  finally show ?thesis .
qed

text \<open>
  C3. For a frame with \<^verbatim>\<open>dispose === true\<close>, the written snapshot is the one the same
  frame gives without dispose, namely the canvas with the patch composited; in the canvas
  handed to the next frame every pixel of the patch region that lies on the canvas has the
  four bytes of the background colour.
\<close>

theorem dispose_after_snapshot:
  assumes "f_dispose fm"
    and "js_or (f_x fm) 0 = ox" and "js_or (f_y fm) 0 = oy"
    and "length canvas = width * height * 4"
    and "in_region (ox * 2) (oy * 2) (f_width fm) (f_height fm) X Y"
    and "X < width" and "Y < height" and "k < 4"
  shows "fst (process_frame width height (r, g, b, a) i fm rgba canvas)
           = fst (process_frame width height (r, g, b, a) i (fm\<lparr>f_dispose := False\<rparr>) rgba canvas)
       \<and> png_data (snd (fst (process_frame width height (r, g, b, a) i fm rgba canvas)))
           = draw_patch canvas width (ox * 2) (oy * 2) (f_width fm) (f_height fm) (f_blend fm) rgba
       \<and> snd (process_frame width height (r, g, b, a) i fm rgba canvas) ! ((Y * width + X) * 4 + k)
           = [r, g, b, a] ! k"
proof -
  have 1: "fst (process_frame width height (r, g, b, a) i fm rgba canvas)
           = fst (process_frame width height (r, g, b, a) i (fm\<lparr>f_dispose := False\<rparr>) rgba canvas)"
    by (simp add: process_frame_def Let_def)
  have 2: "png_data (snd (fst (process_frame width height (r, g, b, a) i fm rgba canvas)))
           = draw_patch canvas width (ox * 2) (oy * 2) (f_width fm) (f_height fm) (f_blend fm) rgba"
    by (simp only: snapshot_process_frame assms(2,3))
  have "Y * width + X < width * height" using assms(6,7) by (rule pixel_index_less)
  then have "(Y * width + X) * 4 + k < length canvas" using assms(4,8) by simp
  then have len: "(Y * width + X) * 4 + k
      < length (draw_patch canvas width (ox * 2) (oy * 2) (f_width fm) (f_height fm) (f_blend fm) rgba)"
    by (simp only: length_draw_patch)
  have 3: "snd (process_frame width height (r, g, b, a) i fm rgba canvas) ! ((Y * width + X) * 4 + k)
           = [r, g, b, a] ! k"
    using clear_region_inside [OF assms(5,8) len] assms(1)
    by (simp only: next_canvas_process_frame assms(2,3) if_True)
  from 1 2 3 show ?thesis by (intro conjI)
qed

text \<open>
  C4, as the program has it. There is no clipping. The buffer keeps its length, so that
  nothing is written outside the index range of the canvas; and a patch whose columns fit
  the canvas changes no pixel outside its region, in the snapshot and in the canvas handed
  to the next frame.
\<close>

theorem patch_writes_stay_in_buffer:
  "length (png_data (snd (fst (process_frame width height bg i fm rgba canvas)))) = length canvas
   \<and> length (snd (process_frame width height bg i fm rgba canvas)) = length canvas
   \<and> (js_or (f_x fm) 0 * 2 + f_width fm \<le> width \<and> X < width \<and> k < 4
        \<and> \<not> in_region (js_or (f_x fm) 0 * 2) (js_or (f_y fm) 0 * 2) (f_width fm) (f_height fm) X Y
      \<longrightarrow> png_data (snd (fst (process_frame width height bg i fm rgba canvas))) ! ((Y * width + X) * 4 + k)
            = canvas ! ((Y * width + X) * 4 + k)
        \<and> snd (process_frame width height bg i fm rgba canvas) ! ((Y * width + X) * 4 + k)
            = canvas ! ((Y * width + X) * 4 + k))"
proof (intro conjI impI)
  show "length (png_data (snd (fst (process_frame width height bg i fm rgba canvas)))) = length canvas"
    by (simp only: snapshot_process_frame length_draw_patch)
  show "length (snd (process_frame width height bg i fm rgba canvas)) = length canvas"
    by (simp add: next_canvas_process_frame length_draw_patch length_clear_region)
next
  assume h: "js_or (f_x fm) 0 * 2 + f_width fm \<le> width \<and> X < width \<and> k < 4
        \<and> \<not> in_region (js_or (f_x fm) 0 * 2) (js_or (f_y fm) 0 * 2) (f_width fm) (f_height fm) X Y"
  then have fit: "js_or (f_x fm) 0 * 2 + f_width fm \<le> width" and X: "X < width" and k: "k < 4"
    and out: "\<not> in_region (js_or (f_x fm) 0 * 2) (js_or (f_y fm) 0 * 2) (f_width fm) (f_height fm) X Y"
    by simp_all
  show "png_data (snd (fst (process_frame width height bg i fm rgba canvas))) ! ((Y * width + X) * 4 + k)
            = canvas ! ((Y * width + X) * 4 + k)"
    using draw_patch_outside_region [OF fit X out k] by (simp only: snapshot_process_frame)
next
  assume h: "js_or (f_x fm) 0 * 2 + f_width fm \<le> width \<and> X < width \<and> k < 4
        \<and> \<not> in_region (js_or (f_x fm) 0 * 2) (js_or (f_y fm) 0 * 2) (f_width fm) (f_height fm) X Y"
  then have fit: "js_or (f_x fm) 0 * 2 + f_width fm \<le> width" and X: "X < width" and k: "k < 4"
    and out: "\<not> in_region (js_or (f_x fm) 0 * 2) (js_or (f_y fm) 0 * 2) (f_width fm) (f_height fm) X Y"
    by simp_all
  show "snd (process_frame width height bg i fm rgba canvas) ! ((Y * width + X) * 4 + k)
            = canvas ! ((Y * width + X) * 4 + k)"
    using draw_patch_outside_region [OF fit X out k, of canvas "f_blend fm" rgba]
      clear_region_outside [OF fit X out k]
    by (simp add: next_canvas_process_frame)
qed

theorem patch_drawn_at_doubled_offset_witness:
  "js_or (f_x \<lparr>f_x = Some 1, f_y = Some 1, f_width = 2, f_height = 2, f_blend = False,
           f_dispose = True, f_delay = None\<rparr>) 0 = 1
   \<and> js_or (f_y \<lparr>f_x = Some 1, f_y = Some 1, f_width = 2, f_height = 2, f_blend = False,
           f_dispose = True, f_delay = None\<rparr>) 0 = 1
   \<and> (1::nat) * 2 + 2 \<le> 4 \<and> length (replicate 64 (0::byte)) = 4 * 4 * 4
   \<and> length [1, 2, 3, 4, 5, 6, 7, 8, 9, 10, 11, 12, 13, 14, 15, 16 :: byte] = 2 * 2 * 4
   \<and> (1::nat) < 2 \<and> (0::nat) < 2 \<and> (2::nat) < 4
   \<and> png_data (snd (fst (process_frame 4 4 (255, 255, 255, 255) 0
         \<lparr>f_x = Some 1, f_y = Some 1, f_width = 2, f_height = 2, f_blend = False,
           f_dispose = True, f_delay = None\<rparr>
         [1, 2, 3, 4, 5, 6, 7, 8, 9, 10, 11, 12, 13, 14, 15, 16] (replicate 64 0))))
         ! (((1 * 2 + 0) * 4 + (1 * 2 + 1)) * 4 + 2) = 7"
  using patch_drawn_at_doubled_offset [of "\<lparr>f_x = Some 1, f_y = Some 1, f_width = 2, f_height = 2, f_blend = False,
           f_dispose = True, f_delay = None\<rparr>" 1 1 4 4 "(255, 255, 255, 255)" 0
           "[1, 2, 3, 4, 5, 6, 7, 8, 9, 10, 11, 12, 13, 14, 15, 16]" "replicate 64 0" 1 0 2,
           THEN conjunct2, THEN conjunct1]
  by (simp add: js_or_def)

theorem noblend_copies_patch_witness:
  "\<not> f_blend \<lparr>f_x = Some 1, f_y = Some 1, f_width = 2, f_height = 2, f_blend = False,
           f_dispose = True, f_delay = None\<rparr>
   \<and> (1::nat) * 2 + 2 \<le> 4
   \<and> length (replicate 64 (0::byte)) = 4 * 4 * 4
   \<and> length [1, 2, 3, 4, 5, 6, 7, 8, 9, 10, 11, 12, 13, 14, 15, 16 :: byte] = 2 * 2 * 4
   \<and> png_data (snd (fst (process_frame 4 4 (255, 255, 255, 255) 0
         \<lparr>f_x = Some 1, f_y = Some 1, f_width = 2, f_height = 2, f_blend = False,
           f_dispose = True, f_delay = None\<rparr>
         [1, 2, 3, 4, 5, 6, 7, 8, 9, 10, 11, 12, 13, 14, 15, 16] (replicate 64 0))))
         ! (((1 * 2 + 1) * 4 + (1 * 2 + 0)) * 4 + 2) = 11"
  using noblend_copies_patch [of "\<lparr>f_x = Some 1, f_y = Some 1, f_width = 2, f_height = 2, f_blend = False,
           f_dispose = True, f_delay = None\<rparr>" 1 1 4 4 "replicate 64 0"
           "[1, 2, 3, 4, 5, 6, 7, 8, 9, 10, 11, 12, 13, 14, 15, 16]" 0 1 2 "(255, 255, 255, 255)" 0]
  by (simp add: js_or_def)

theorem dispose_after_snapshot_witness:
  "f_dispose \<lparr>f_x = Some 1, f_y = Some 1, f_width = 2, f_height = 2, f_blend = False,
           f_dispose = True, f_delay = None\<rparr>
   \<and> length (replicate 64 (0::byte)) = 4 * 4 * 4
   \<and> in_region (1 * 2) (1 * 2) 2 2 3 2
   \<and> snd (process_frame 4 4 (255, 254, 253, 252) 0
         \<lparr>f_x = Some 1, f_y = Some 1, f_width = 2, f_height = 2, f_blend = False,
           f_dispose = True, f_delay = None\<rparr>
         [1, 2, 3, 4, 5, 6, 7, 8, 9, 10, 11, 12, 13, 14, 15, 16] (replicate 64 0))
         ! ((2 * 4 + 3) * 4 + 1) = 254"
  using dispose_after_snapshot [of "\<lparr>f_x = Some 1, f_y = Some 1, f_width = 2, f_height = 2, f_blend = False,
           f_dispose = True, f_delay = None\<rparr>" 1 1 "replicate 64 0" 4 4 3 2 1 255 254 253 252 0
           "[1, 2, 3, 4, 5, 6, 7, 8, 9, 10, 11, 12, 13, 14, 15, 16]"]
  by (simp add: js_or_def in_region_def)

theorem patch_writes_stay_in_buffer_witness:
  "js_or (f_x \<lparr>f_x = Some 1, f_y = Some 1, f_width = 2, f_height = 2, f_blend = False,
           f_dispose = True, f_delay = None\<rparr>) 0 * 2 + 2 \<le> (4::nat)
   \<and> \<not> in_region (1 * 2) (1 * 2) 2 2 1 2
   \<and> png_data (snd (fst (process_frame 4 4 (255, 255, 255, 255) 0
         \<lparr>f_x = Some 1, f_y = Some 1, f_width = 2, f_height = 2, f_blend = False,
           f_dispose = True, f_delay = None\<rparr>
         [1, 2, 3, 4, 5, 6, 7, 8, 9, 10, 11, 12, 13, 14, 15, 16] (replicate 64 7))))
         ! ((2 * 4 + 1) * 4 + 3) = replicate 64 7 ! ((2 * 4 + 1) * 4 + 3)"
  using patch_writes_stay_in_buffer [of 4 4 "(255, 255, 255, 255)" 0
           "\<lparr>f_x = Some 1, f_y = Some 1, f_width = 2, f_height = 2, f_blend = False,
           f_dispose = True, f_delay = None\<rparr>"
           "[1, 2, 3, 4, 5, 6, 7, 8, 9, 10, 11, 12, 13, 14, 15, 16]" "replicate 64 7" 1 3 2]
  by (simp add: js_or_def in_region_def)

text \<open>
  The claim C4 of a clipped region fails: on a canvas of 2 by 2 pixels a patch of a single
  red pixel at stored offset \<open>(1, 0)\<close>, whose region \<open>[2, 3) \<times> [0, 1)\<close> lies to the right of
  the canvas, overwrites pixel \<open>(0, 1)\<close>, the first pixel of the row below.
\<close>

theorem patch_wraps_counterexample:
  "\<not> in_region (1 * 2) (0 * 2) 1 1 0 1
   \<and> png_data (snd (fst (process_frame 2 2 (255, 255, 255, 255) 0
         \<lparr>f_x = Some 1, f_y = Some 0, f_width = 1, f_height = 1, f_blend = False,
           f_dispose = False, f_delay = None\<rparr>
         [255, 0, 0, 255]
         [255, 255, 255, 255, 255, 255, 255, 255, 255, 255, 255, 255, 255, 255, 255, 255])))
       = [255, 255, 255, 255, 255, 255, 255, 255, 255, 0, 0, 255, 255, 255, 255, 255]"
  by (simp add: in_region_def process_frame_def js_or_def draw_patch_def copy_pixel_def
      buf_set_def buf_get_def ToUint8_num_of_byte Let_def)

section \<open>The frame rate\<close>

lemma fl_quarter:
  assumes "0 \<le> x" "x \<le> 1 / 4"
  shows "0 \<le> fl x" "fl x \<le> 1 / 4"
proof -
  have p: "(2::rat) powi (- 2) = 1 / 4" by (simp add: power_int_minus_divide)
  have lo: "of_int 0 * 2 powi (- 2) \<le> x" using assms(1) by simp
  have hi: "x \<le> of_int 1 * 2 powi (- 2)" using assms(2) by (simp add: p)
  have b: "(1::int) < 2 ^ 53" by simp
  note r = fl_between [OF lo hi order_refl b]
  show "0 \<le> fl x" using r(1) by simp
  show "fl x \<le> 1 / 4" using r(2) by (simp add: p)
qed

lemma fl_half_steps:
  assumes lo: "of_nat m - 1 / 2 \<le> x" and hi: "x \<le> of_nat m + 1 / 2 - 1 / 8192"
    and m: "m \<le> 1000" and x: "0 \<le> x"
  shows "of_nat m - 1 / 2 \<le> fl x" and "fl x \<le> of_nat m + 1 / 2 - 1 / 8192"
proof -
  have p: "(2::rat) powi (- 13) = 1 / 8192" by (simp add: power_int_minus_divide)
  define a where "a = max 0 ((2 * int m - 1) * 4096)"
  define b where "b = (2 * int m + 1) * 4096 - 1"
  have A: "of_nat m - 1 / 2 \<le> (of_int a :: rat) * 2 powi (- 13)"
    by (simp add: a_def p max_def field_simps)
  have A': "(of_int a :: rat) * 2 powi (- 13) \<le> x"
  proof (cases "m = 0")
    case True
    then show ?thesis using x by (simp add: a_def)
  next
    case False
    then have "a = (2 * int m - 1) * 4096" by (simp add: a_def)
    then have "(of_int a :: rat) * 2 powi (- 13) = of_nat m - 1 / 2" by (simp add: p field_simps)
    then show ?thesis using lo by simp
  qed
  have B: "(of_int b :: rat) * 2 powi (- 13) = of_nat m + 1 / 2 - 1 / 8192"
    by (simp add: b_def p field_simps)
  have B': "x \<le> (of_int b :: rat) * 2 powi (- 13)" using hi by (simp only: B)
  have a0: "0 \<le> a" by (simp add: a_def)
  have "int m \<le> 1000" using m by simp
  then have b53: "b < 2 ^ 53" by (simp add: b_def)
  have j: "- 1074 \<le> (- 13 :: int)" by simp
  note r = fl_between [OF A' B' a0 b53 j]
  show "of_nat m - 1 / 2 \<le> fl x" using A r(1) by (rule order_trans)
  show "fl x \<le> of_nat m + 1 / 2 - 1 / 8192" using r(2) by (simp only: B)
qed

lemma round_fl_1000_div:
  assumes d: "0 < d"
  shows "\<lfloor>fl (1000 / of_nat d) + 1 / 2\<rfloor> = int ((2000 + d) div (2 * d))"
proof -
  define m r where "m = (2000 + d) div (2 * d)" and "r = (2000 + d) mod (2 * d)"
  have e: "2000 + d = 2 * d * m + r" by (simp add: m_def r_def)
  have r: "r < 2 * d" using d by (simp add: r_def)
  have dpos: "(0::rat) < of_nat d" using d by simp
  have "(of_nat (2000 + d) :: rat) = of_nat (2 * d * m + r)" by (simp only: e)
  then have e': "(2000 :: rat) + of_nat d = 2 * of_nat d * of_nat m + of_nat r" by simp
  have q: "(1000::rat) / of_nat d = of_nat m - 1 / 2 + of_nat r / (2 * of_nat d)"
    using dpos e' by (simp add: field_simps)
  have q0: "(0::rat) \<le> 1000 / of_nat d" by simp
  show ?thesis
  proof (cases "d < 4096")
    case False
    then have big: "4096 \<le> d" by simp
    then have "2000 + d < 2 * d" by simp
    then have m0: "m = 0" by (simp add: m_def)
    have "(4096::rat) \<le> of_nat d" using big by (metis of_nat_le_iff of_nat_numeral)
    then have "(1000::rat) / of_nat d \<le> 1000 / 4096" by (intro divide_left_mono) simp_all
    then have "(1000::rat) / of_nat d \<le> 1 / 4" by simp
    note f = fl_quarter [OF q0 this]
    have "\<lfloor>fl (1000 / of_nat d) + 1 / 2\<rfloor> = 0"
      using f by (intro floor_unique) simp_all
    then show ?thesis by (simp add: m0 m_def [symmetric])
  next
    case True
    have m: "m \<le> 1000"
    proof -
      have "2 * d * m \<le> 2000 + d" using e by simp
      also have "\<dots> < 2 * d * 1001" using d by simp
      finally have "m < 1001" by simp
      then show ?thesis by simp
    qed
    have lo: "of_nat m - 1 / 2 \<le> (1000::rat) / of_nat d"
      unfolding q by simp
    have "r + 1 \<le> 2 * d" using r by simp
    then have "(of_nat (r + 1) :: rat) \<le> of_nat (2 * d)" by (simp only: of_nat_le_iff)
    then have "(of_nat r :: rat) \<le> 2 * of_nat d - 1" by simp
    then have "(of_nat r :: rat) / (2 * of_nat d) \<le> (2 * of_nat d - 1) / (2 * of_nat d)"
      using dpos by (intro divide_right_mono) simp_all
    also have "\<dots> = 1 - 1 / (2 * of_nat d)" using dpos by (simp add: field_simps)
    finally have r1: "(of_nat r :: rat) / (2 * of_nat d) \<le> 1 - 1 / (2 * of_nat d)" .
    have "d \<le> 4096" using True by simp
    then have "(of_nat d :: rat) \<le> of_nat 4096" by (simp only: of_nat_le_iff)
    then have "(2 * of_nat d :: rat) \<le> 8192" by simp
    then have "(1::rat) / 8192 \<le> 1 / (2 * of_nat d)"
      using dpos by (intro divide_left_mono) simp_all
    with r1 have "(of_nat r :: rat) / (2 * of_nat d) \<le> 1 - 1 / 8192" by simp
    then have hi: "(1000::rat) / of_nat d \<le> of_nat m + 1 / 2 - 1 / 8192"
      unfolding q by simp
    note f = fl_half_steps [OF lo hi m q0]
    have "\<lfloor>fl (1000 / of_nat d) + 1 / 2\<rfloor> = int m"
      using f by (intro floor_unique) simp_all
    then show ?thesis by (simp add: m_def)
  qed
qed

lemma round_1000_div:
  assumes d: "0 < d"
  shows "round ((1000::rat) / of_nat d) = int ((2000 + d) div (2 * d))"
proof -
  have "(1000::rat) / of_nat d + 1 / 2 = of_nat (2000 + d) / of_nat (2 * d)"
    using d by (simp add: field_simps)
  then have "round ((1000::rat) / of_nat d) = \<lfloor>(of_nat (2000 + d) :: rat) / of_nat (2 * d)\<rfloor>"
    by (simp only: round_def)
  also have "\<dots> = int ((2000 + d) div (2 * d))"
    by (rule floor_divide_of_nat_eq)
  finally show ?thesis .
qed

section \<open>Snapshot names\<close>

lemma of_char_digit: "d < 10 \<Longrightarrow> of_char (digit_char d) = 48 + d"
  by (simp add: digit_char_def)

lemma is_digit_digit_char: "d < 10 \<Longrightarrow> is_digit (digit_char d)"
  by (simp add: is_digit_def of_char_digit)

lemma zero_char: "CHR ''0'' = digit_char 0"
  by code_simp

lemma dec_value_snoc: "dec_value (s @ [c]) = dec_value s * 10 + (of_char c - 48)"
  by (simp add: dec_value_def)

lemma dec_value_toString: "dec_value (toString n) = n"
proof (induction n rule: toString.induct)
  case (1 n)
  show ?case
  proof (cases "n < 10")
    case True
    then show ?thesis
      by (subst toString.simps) (simp add: dec_value_def of_char_digit)
  next
    case False
    have "dec_value (toString n) = dec_value (toString (n div 10) @ [digit_char (n mod 10)])"
      using False by (subst toString.simps) simp
    also have "\<dots> = n div 10 * 10 + n mod 10"
      using 1 False by (simp add: dec_value_snoc of_char_digit)
    finally show ?thesis by simp
  qed
qed

lemma digits_toString: "c \<in> set (toString n) \<Longrightarrow> is_digit c"
proof (induction n rule: toString.induct)
  case (1 n)
  show ?case
  proof (cases "n < 10")
    case True
    then show ?thesis using "1.prems"
      by (subst (asm) toString.simps) (simp add: is_digit_digit_char)
  next
    case False
    then have "c \<in> set (toString (n div 10)) \<or> c = digit_char (n mod 10)"
      using "1.prems" by (subst (asm) toString.simps) auto
    then show ?thesis
    proof
      assume "c \<in> set (toString (n div 10))"
      with False show ?thesis by (rule "1.IH")
    next
      assume "c = digit_char (n mod 10)"
      then show ?thesis by (simp add: is_digit_digit_char)
    qed
  qed
qed

lemma length_toString: "n < 10 ^ k \<Longrightarrow> 0 < k \<Longrightarrow> length (toString n) \<le> k"
proof (induction n arbitrary: k rule: toString.induct)
  case (1 n)
  show ?case
  proof (cases "n < 10")
    case True
    then show ?thesis using "1.prems" by (subst toString.simps) simp
  next
    case False
    obtain j where k: "k = Suc j" using "1.prems"(2) by (cases k) simp_all
    have j: "0 < j" using False "1.prems"(1) unfolding k by (cases "j = 0") simp_all
    have "n div 10 < 10 ^ j" using "1.prems"(1) by (simp add: k less_mult_imp_div_less mult.commute)
    then have "length (toString (n div 10)) \<le> j" using False j by (intro "1.IH") simp_all
    then show ?thesis using False by (subst toString.simps) (simp add: k)
  qed
qed

lemma length_frameIndex: "i < 100000 \<Longrightarrow> length (frameIndex i) = 5"
proof -
  assume "i < 100000"
  then have "i < 10 ^ 5" by simp
  then have "length (toString i) \<le> 5" by (rule length_toString) simp
  then show ?thesis by (simp add: frameIndex_def padStart_def)
qed

lemma dec_value_zeros: "dec_value (replicate k (CHR ''0'') @ s) = dec_value s"
proof -
  have "foldl (\<lambda>v c. v * 10 + (of_char c - 48)) 0 (replicate k (CHR ''0'')) = (0::nat)"
    by (induction k) simp_all
  then show ?thesis by (simp add: dec_value_def)
qed

lemma dec_value_frameIndex: "dec_value (frameIndex i) = i"
  by (simp add: frameIndex_def padStart_def dec_value_zeros dec_value_toString)

lemma digits_frameIndex: "c \<in> set (frameIndex i) \<Longrightarrow> is_digit c"
  by (auto simp: frameIndex_def padStart_def zero_char is_digit_digit_char dest: digits_toString)

lemma toString_small: "n < 10 \<Longrightarrow> toString n = [digit_char n]"
  by (subst toString.simps) simp

lemma toString_step: "10 \<le> n \<Longrightarrow> toString n = toString (n div 10) @ [digit_char (n mod 10)]"
  by (subst toString.simps) simp

lemma replicate_zeros:
  "replicate 4 c = [c, c, c, c]" "replicate 3 c = [c, c, c]" "replicate 2 c = [c, c]"
  "replicate 1 c = [c]"
  by (simp_all add: numeral_eq_Suc)

lemma frameIndex_five:
  assumes "k < 100000"
  shows "frameIndex k = [digit_char (k div 10000), digit_char (k div 1000 mod 10),
           digit_char (k div 100 mod 10), digit_char (k div 10 mod 10), digit_char (k mod 10)]"
proof -
  have d2: "k div 10 div 10 = k div 100" by (simp add: div_mult2_eq [symmetric])
  have d3: "k div 100 div 10 = k div 1000" by (simp add: div_mult2_eq [symmetric])
  have d4: "k div 1000 div 10 = k div 10000" by (simp add: div_mult2_eq [symmetric])
  have t1: "toString (k div 10000) = [digit_char (k div 10000)]"
    using assms by (intro toString_small) simp
  have t2: "toString (k div 1000) = (if k < 10000 then [] else [digit_char (k div 10000)]) @ [digit_char (k div 1000 mod 10)]" if "1000 \<le> k"
  proof (cases "k < 10000")
    case True
    then have "k div 1000 < 10" by simp
    then show ?thesis using True by (simp add: toString_small)
  next
    case False
    then have "10 \<le> k div 1000" by simp
    then show ?thesis using False by (simp add: toString_step d4 t1)
  qed
  consider "k < 10" | "10 \<le> k" "k < 100" | "100 \<le> k" "k < 1000" | "1000 \<le> k" "k < 10000"
    | "10000 \<le> k" by linarith
  then show ?thesis
  proof cases
    case 1
    then show ?thesis
      by (simp add: frameIndex_def padStart_def toString_small replicate_zeros zero_char)
  next
    case 2
    then have a: "k div 10 < 10" by simp
    show ?thesis using 2
      by (simp add: frameIndex_def padStart_def toString_step [of k] toString_small [OF a]
          replicate_zeros zero_char)
  next
    case 3
    then have a: "10 \<le> k div 10" and b: "k div 100 < 10" by simp_all
    show ?thesis using 3
      by (simp add: frameIndex_def padStart_def toString_step [of k] toString_step [OF a] d2
          toString_small [OF b] replicate_zeros zero_char)
  next
    case 4
    then have a: "10 \<le> k div 10" and b: "10 \<le> k div 100" and c: "k div 1000 < 10" by simp_all
    show ?thesis using 4
      by (simp add: frameIndex_def padStart_def toString_step [of k] toString_step [OF a] d2
          toString_step [OF b] d3 toString_small [OF c] replicate_zeros zero_char)
  next
    case 5
    then have a: "10 \<le> k div 10" and b: "10 \<le> k div 100" and c: "10 \<le> k div 1000" by simp_all
    show ?thesis using 5
      by (simp add: frameIndex_def padStart_def toString_step [of k] toString_step [OF a] d2
          toString_step [OF b] d3 toString_step [OF c] d4 t1)
  qed
qed

lemma foldl_dec_shift:
  "foldl (\<lambda>v c. v * 10 + (of_char c - 48)) a s
     = a * 10 ^ length s + foldl (\<lambda>v c. v * 10 + (of_char c - 48)) (0::nat) s"
proof (induction s arbitrary: a)
  case Nil
  show ?case by simp
next
  case (Cons c s)
  show ?case
    by (simp add: Cons.IH [of "a * 10 + (of_char c - 48)"] Cons.IH [of "of_char c - 48"] algebra_simps)
qed

lemma dec_value_Cons: "dec_value (c # s) = (of_char c - 48) * 10 ^ length s + dec_value s"
  using foldl_dec_shift [of "of_char c - 48" s] by (simp add: dec_value_def)

lemma dec_value_less: "(\<And>c. c \<in> set s \<Longrightarrow> is_digit c) \<Longrightarrow> dec_value s < 10 ^ length s"
proof (induction s)
  case Nil
  show ?case by (simp add: dec_value_def)
next
  case (Cons c s)
  have "is_digit c" using Cons.prems by simp
  then have c: "(of_char c :: nat) - 48 \<le> 9" unfolding is_digit_def by linarith
  have s: "dec_value s < 10 ^ length s" using Cons.prems by (intro Cons.IH) simp
  have m: "((of_char c :: nat) - 48) * 10 ^ length s \<le> 9 * 10 ^ length s"
    using c by (rule mult_le_mono1)
  have "dec_value (c # s) = (of_char c - 48) * 10 ^ length s + dec_value s"
    by (rule dec_value_Cons)
  also have "\<dots> < 9 * 10 ^ length s + 10 ^ length s"
    using m s by (rule add_le_less_mono)
  also have "\<dots> = 10 ^ length (c # s)" by simp
  finally show ?case .
qed

lemma digit_strings_order:
  assumes "length xs = length ys"
    and "\<And>c. c \<in> set xs \<Longrightarrow> is_digit c" and "\<And>c. c \<in> set ys \<Longrightarrow> is_digit c"
    and "dec_value xs < dec_value ys"
  shows "xs < ys"
  using assms
proof (induction xs ys rule: list_induct2)
  case Nil
  then show ?case by simp
next
  case (Cons a xs b ys)
  have da: "is_digit a" and db: "is_digit b" using Cons.prems by simp_all
  have vx: "dec_value xs < 10 ^ length ys"
    using dec_value_less [of xs] Cons.prems(1) Cons.hyps by simp
  have vy: "dec_value ys < 10 ^ length ys"
    using dec_value_less [of ys] Cons.prems(2) by simp
  have lt: "(of_char a - 48) * 10 ^ length ys + dec_value xs
      < (of_char b - 48) * 10 ^ length ys + dec_value ys"
    using Cons.prems(3) Cons.hyps by (simp add: dec_value_Cons)
  consider "(of_char a :: nat) < of_char b" | "(of_char a :: nat) = of_char b"
    | "(of_char b :: nat) < of_char a" by linarith
  then show ?case
  proof cases
    case 1
    then have "a < b" by (simp add: less_char_def)
    then show ?thesis by simp
  next
    case 2
    then have ab: "a = b" by simp
    then have "dec_value xs < dec_value ys" using lt by simp
    then have "xs < ys" using Cons.prems(1,2) by (intro Cons.IH) simp_all
    then show ?thesis using ab by simp
  next
    case 3
    then have "(of_char b :: nat) - 48 + 1 \<le> of_char a - 48"
      using da db unfolding is_digit_def by linarith
    then have "((of_char b :: nat) - 48 + 1) * 10 ^ length ys \<le> (of_char a - 48) * 10 ^ length ys"
      by (rule mult_le_mono1)
    then have "((of_char b :: nat) - 48) * 10 ^ length ys + 10 ^ length ys
        \<le> (of_char a - 48) * 10 ^ length ys"
      by (simp only: add_mult_distrib mult_1)
    with lt vy have False by linarith
    then show ?thesis ..
  qed
qed

lemma less_append_prefix: "(p @ xs < p @ ys) = (xs < (ys :: string))"
  by (induction p) simp_all

lemma less_append_suffix:
  "length xs = length ys \<Longrightarrow> xs < ys \<Longrightarrow> xs @ s < ys @ (t :: string)"
  by (induction xs ys rule: list_induct2) auto

lemma outPath_order:
  assumes "i < j" "j < 100000"
  shows "outPath i < outPath j"
proof -
  have i: "i < 100000" using assms by simp
  have "frameIndex i < frameIndex j"
  proof (rule digit_strings_order)
    show "length (frameIndex i) = length (frameIndex j)"
      using i assms(2) by (simp add: length_frameIndex)
    show "dec_value (frameIndex i) < dec_value (frameIndex j)"
      using assms(1) by (simp add: dec_value_frameIndex)
  qed (rule digits_frameIndex, assumption)+
  moreover have "length (frameIndex i) = length (frameIndex j)"
    using i assms(2) by (simp add: length_frameIndex)
  ultimately have "frameIndex i @ ''.png'' < frameIndex j @ ''.png''"
    by (intro less_append_suffix)
  then show ?thesis unfolding outPath_def by (simp only: less_append_prefix)
qed

section \<open>The frame loop and the conversion\<close>

lemma canvas_before_shift:
  "canvas_before width height bg data n (fm # fms) canvas (Suc i)
     = canvas_before width height bg data (Suc n) fms
         (snd (process_frame width height bg n fm (data n) canvas)) i"
  by (induction i) simp_all

lemma frame_loop_ok:
  assumes "\<forall>i<length fms. getFrameData (n + i) = Inr (data (n + i))"
  shows "frame_loop width height bg getFrameData n fms canvas
       = Inr (map (\<lambda>i. fst (process_frame width height bg (n + i) (fms ! i) (data (n + i))
                           (canvas_before width height bg data n fms canvas i)))
               [0..<length fms])"
  using assms
proof (induction fms arbitrary: n canvas)
  case Nil
  show ?case by simp
next
  case (Cons fm fms)
  have g0: "getFrameData n = Inr (data n)" using Cons.prems by auto
  have gs: "\<forall>i<length fms. getFrameData (Suc n + i) = Inr (data (Suc n + i))"
  proof (intro allI impI)
    fix i assume "i < length fms"
    then have "Suc i < length (fm # fms)" by simp
    with Cons.prems have "getFrameData (n + Suc i) = Inr (data (n + Suc i))" by blast
    then show "getFrameData (Suc n + i) = Inr (data (Suc n + i))" by simp
  qed
  obtain snapshot c2 where pf: "process_frame width height bg n fm (data n) canvas = (snapshot, c2)"
    by (cases "process_frame width height bg n fm (data n) canvas")
  note ih = Cons.IH [OF gs, of c2]
  have m: "map (\<lambda>i. fst (process_frame width height bg (n + i) ((fm # fms) ! i) (data (n + i))
                           (canvas_before width height bg data n (fm # fms) canvas i)))
               [0..<length (fm # fms)]
         = snapshot
           # map (\<lambda>i. fst (process_frame width height bg (Suc n + i) (fms ! i) (data (Suc n + i))
                           (canvas_before width height bg data (Suc n) fms c2 i)))
               [0..<length fms]"
    by (simp add: upt_conv_Cons map_Suc_upt [symmetric] canvas_before_shift pf
        del: upt_Suc canvas_before.simps(2))
  have "frame_loop width height bg getFrameData n (fm # fms) canvas
      = Inr (snapshot # map (\<lambda>i. fst (process_frame width height bg (Suc n + i) (fms ! i) (data (Suc n + i))
                           (canvas_before width height bg data (Suc n) fms c2 i)))
               [0..<length fms])"
    by (simp only: frame_loop.simps g0 pf ih sum.case prod.case)
  then show ?case by (simp only: m)
qed

lemma fps_of_first:
  assumes "hasAnim img" "frames img = fm # rest"
  shows "fps_of img = Fin (of_nat ((2000 + js_or (f_delay fm) 100) div (2 * js_or (f_delay fm) 100)))"
proof -
  let ?d = "js_or (f_delay fm) 100"
  have d: "0 < ?d" by (simp add: js_or_def split: option.split)
  then have nz: "(of_nat ?d :: rat) \<noteq> 0" by simp
  have "fps_of img = Math_round (fdiv (Fin 1000) (Fin (of_nat ?d)))"
    using assms by (simp add: fps_of_def)
  also have "\<dots> = Fin (of_int \<lfloor>fl (1000 / of_nat ?d) + 1 / 2\<rfloor>)"
    using nz by simp
  also have "\<dots> = Fin (of_int (int ((2000 + ?d) div (2 * ?d))))"
    by (simp only: round_fl_1000_div [OF d])
  finally show ?thesis by simp
qed

text \<open>
  C9. For an animated image with at least one frame the frame rate is \<open>1000 / d\<close> rounded
  to the nearest integer, where \<open>d\<close> is the delay of the first frame, or 100 when that
  delay is 0 or missing; the division in double precision and \<^verbatim>\<open>Math.round\<close> give the
  same integer as the exact quotient. Delays 100, 0 and none give 10, delay 40 gives 25,
  and the frames after the first have no influence.
\<close>

theorem fps_from_first_delay:
  assumes "hasAnim img" and "frames img = fm # rest"
  shows "fps_of img
           = Fin (of_int (round ((1000 :: rat)
               / of_nat (case f_delay fm of None \<Rightarrow> 100 | Some n \<Rightarrow> if n = 0 then 100 else n))))
       \<and> (f_delay fm = Some 100 \<longrightarrow> fps_of img = Fin 10)
       \<and> (f_delay fm = Some 0 \<longrightarrow> fps_of img = Fin 10)
       \<and> (f_delay fm = None \<longrightarrow> fps_of img = Fin 10)
       \<and> (f_delay fm = Some 40 \<longrightarrow> fps_of img = Fin 25)
       \<and> fps_of (img\<lparr>frames := fm # others\<rparr>) = fps_of img"
proof -
  let ?d = "js_or (f_delay fm) 100"
  note f = fps_of_first [OF assms]
  have d: "0 < ?d" by (simp add: js_or_def split: option.split)
  have dd: "(case f_delay fm of None \<Rightarrow> 100 | Some n \<Rightarrow> if n = 0 then 100 else n) = ?d"
    by (simp add: js_or_def)
  have 1: "fps_of img = Fin (of_int (round ((1000 :: rat) / of_nat ?d)))"
    by (simp only: f round_1000_div [OF d] of_int_of_nat_eq)
  have 2: "f_delay fm = Some 100 \<longrightarrow> fps_of img = Fin 10" by (simp add: f js_or_def)
  have 3: "f_delay fm = Some 0 \<longrightarrow> fps_of img = Fin 10" by (simp add: f js_or_def)
  have 4: "f_delay fm = None \<longrightarrow> fps_of img = Fin 10" by (simp add: f js_or_def)
  have 5: "f_delay fm = Some 40 \<longrightarrow> fps_of img = Fin 25" by (simp add: f js_or_def)
  have "hasAnim (img\<lparr>frames := fm # others\<rparr>)" "frames (img\<lparr>frames := fm # others\<rparr>) = fm # others"
    using assms(1) by simp_all
  then have 6: "fps_of (img\<lparr>frames := fm # others\<rparr>) = fps_of img"
    by (simp only: fps_of_first f)
  from 1 2 3 4 5 6 show ?thesis unfolding dd by (intro conjI)
qed

theorem fps_from_first_delay_witness:
  "hasAnim \<lparr>hasAnim = True, img_width = 4, img_height = 4, bgColor = None,
      frames = [\<lparr>f_x = Some 1, f_y = Some 1, f_width = 2, f_height = 2, f_blend = False,
                 f_dispose = True, f_delay = Some 40\<rparr>,
                \<lparr>f_x = None, f_y = None, f_width = 4, f_height = 4, f_blend = True,
                 f_dispose = False, f_delay = Some 500\<rparr>]\<rparr>
   \<and> fps_of \<lparr>hasAnim = True, img_width = 4, img_height = 4, bgColor = None,
      frames = [\<lparr>f_x = Some 1, f_y = Some 1, f_width = 2, f_height = 2, f_blend = False,
                 f_dispose = True, f_delay = Some 40\<rparr>,
                \<lparr>f_x = None, f_y = None, f_width = 4, f_height = 4, f_blend = True,
                 f_dispose = False, f_delay = Some 500\<rparr>]\<rparr> = Fin 25"
  using fps_from_first_delay [of "\<lparr>hasAnim = True, img_width = 4, img_height = 4, bgColor = None,
      frames = [\<lparr>f_x = Some 1, f_y = Some 1, f_width = 2, f_height = 2, f_blend = False,
                 f_dispose = True, f_delay = Some 40\<rparr>,
                \<lparr>f_x = None, f_y = None, f_width = 4, f_height = 4, f_blend = True,
                 f_dispose = False, f_delay = Some 500\<rparr>]\<rparr>"
      "\<lparr>f_x = Some 1, f_y = Some 1, f_width = 2, f_height = 2, f_blend = False,
                 f_dispose = True, f_delay = Some 40\<rparr>"
      "[\<lparr>f_x = None, f_y = None, f_width = 4, f_height = 4, f_blend = True,
                 f_dispose = False, f_delay = Some 500\<rparr>]"]
  by simp

text \<open>
  C8, as the program has it. When every frame of an animated image decodes, the worker
  writes one snapshot per frame, in frame order; snapshot \<open>n\<close> is named \<open>outPath n\<close> and
  shows patch \<open>n\<close> composited onto the canvas that the frames before it have left. The
  name is \<^verbatim>\<open>frame_\<close>, the index and \<^verbatim>\<open>.png\<close>. The index consists of decimal digits only
  and denotes \<open>n\<close>; below 100000 it is the five decimal digits of \<open>n\<close>, leading zeros
  included (\<^verbatim>\<open>frame_00000.png\<close>, \<^verbatim>\<open>frame_00001.png\<close>, ...), and there the lexicographic
  order of the names is the order of the frames.
\<close>

theorem snapshots_in_frame_order:
  assumes "hasAnim img" and "\<forall>n<length (frames img). getFrameData n = Inr (data n)"
  shows "convert img getFrameData
           = Inr (map (\<lambda>n. (outPath n,
                    Png (snd (fst (process_frame (img_width img) (img_height img)
                      (case bgColor img of Some c \<Rightarrow> c | None \<Rightarrow> (255, 255, 255, 255))
                      n (frames img ! n) (data n)
                      (canvas_before (img_width img) (img_height img)
                        (case bgColor img of Some c \<Rightarrow> c | None \<Rightarrow> (255, 255, 255, 255))
                        data 0 (frames img)
                        (init_canvas (img_width img) (img_height img)
                          (case bgColor img of Some c \<Rightarrow> c | None \<Rightarrow> (255, 255, 255, 255)))
                        n))))))
                  [0..<length (frames img)],
                fps_of img)
       \<and> outPath k = ''frame_'' @ frameIndex k @ ''.png''
       \<and> (c \<in> set (frameIndex k) \<longrightarrow> is_digit c)
       \<and> dec_value (frameIndex k) = k
       \<and> (k < 100000 \<longrightarrow>
            frameIndex k = [digit_char (k div 10000), digit_char (k div 1000 mod 10),
              digit_char (k div 100 mod 10), digit_char (k div 10 mod 10), digit_char (k mod 10)])
       \<and> outPath 0 = ''frame_00000.png'' \<and> outPath 1 = ''frame_00001.png''
       \<and> outPath 12 = ''frame_00012.png'' \<and> outPath 99999 = ''frame_99999.png''
       \<and> (i < j \<and> j < 100000 \<longrightarrow>
            length (frameIndex i) = 5 \<and> length (frameIndex j) = 5 \<and> outPath i < outPath j)"
proof -
  let ?bg = "case bgColor img of Some c \<Rightarrow> c | None \<Rightarrow> (255, 255, 255, 255)"
  have g: "\<forall>n<length (frames img). getFrameData (0 + n) = Inr (data (0 + n))"
    using assms(2) by simp
  note l = frame_loop_ok [OF g, of "img_width img" "img_height img" ?bg
      "init_canvas (img_width img) (img_height img) ?bg"]
  have nm: "fst (process_frame width height bg n fm rgba canvas) = (outPath n, snd (fst (process_frame width height bg n fm rgba canvas)))"
    for width height bg n fm rgba canvas
    by (simp add: process_frame_def Let_def)
  have 1: "convert img getFrameData
           = Inr (map (\<lambda>n. (outPath n,
                    Png (snd (fst (process_frame (img_width img) (img_height img) ?bg
                      n (frames img ! n) (data n)
                      (canvas_before (img_width img) (img_height img) ?bg data 0 (frames img)
                        (init_canvas (img_width img) (img_height img) ?bg) n))))))
                  [0..<length (frames img)],
                fps_of img)"
    using assms(1) by (simp add: convert_def Let_def l comp_def) (subst nm, simp)
  have 2: "outPath k = ''frame_'' @ frameIndex k @ ''.png''" by (rule outPath_def)
  have 3: "c \<in> set (frameIndex k) \<longrightarrow> is_digit c" by (simp add: digits_frameIndex)
  have 4: "dec_value (frameIndex k) = k" by (rule dec_value_frameIndex)
  have 5: "k < 100000 \<longrightarrow>
            frameIndex k = [digit_char (k div 10000), digit_char (k div 1000 mod 10),
              digit_char (k div 100 mod 10), digit_char (k div 10 mod 10), digit_char (k mod 10)]"
    using frameIndex_five [of k] by (rule impI)
  have 6: "outPath 0 = ''frame_00000.png''" "outPath 1 = ''frame_00001.png''"
    "outPath 12 = ''frame_00012.png''" "outPath 99999 = ''frame_99999.png''"
    by (simp_all add: outPath_def frameIndex_def padStart_def toString.simps digit_char_def
        char_of_def bit_Suc_0_iff replicate_zeros)
  have 7: "i < j \<and> j < 100000 \<longrightarrow>
            length (frameIndex i) = 5 \<and> length (frameIndex j) = 5 \<and> outPath i < outPath j"
    by (auto simp: length_frameIndex outPath_order)
  from 1 2 3 4 5 6 7 show ?thesis by (intro conjI)
qed

theorem snapshots_in_frame_order_witness:
  "hasAnim \<lparr>hasAnim = True, img_width = 1, img_height = 1, bgColor = None,
      frames = [\<lparr>f_x = None, f_y = None, f_width = 1, f_height = 1, f_blend = False,
                 f_dispose = False, f_delay = Some 40\<rparr>,
                \<lparr>f_x = None, f_y = None, f_width = 1, f_height = 1, f_blend = True,
                 f_dispose = True, f_delay = Some 40\<rparr>]\<rparr>
   \<and> (3::nat) < 13 \<and> (13::nat) < 100000 \<and> (7::nat) < 100000
   \<and> CHR ''7'' \<in> set (frameIndex 7) \<and> is_digit (CHR ''7'')
   \<and> frameIndex 7 = ''00007''
   \<and> length (frameIndex 3) = 5 \<and> outPath 3 < outPath 13
   \<and> (case convert \<lparr>hasAnim = True, img_width = 1, img_height = 1, bgColor = None,
      frames = [\<lparr>f_x = None, f_y = None, f_width = 1, f_height = 1, f_blend = False,
                 f_dispose = False, f_delay = Some 40\<rparr>,
                \<lparr>f_x = None, f_y = None, f_width = 1, f_height = 1, f_blend = True,
                 f_dispose = True, f_delay = Some 40\<rparr>]\<rparr> (\<lambda>n. Inr [1, 2, 3, 255]) of
         Inl e \<Rightarrow> False
       | Inr (files, rate) \<Rightarrow> map fst files = [''frame_00000.png'', ''frame_00001.png''])"
  using snapshots_in_frame_order [of "\<lparr>hasAnim = True, img_width = 1, img_height = 1, bgColor = None,
      frames = [\<lparr>f_x = None, f_y = None, f_width = 1, f_height = 1, f_blend = False,
                 f_dispose = False, f_delay = Some 40\<rparr>,
                \<lparr>f_x = None, f_y = None, f_width = 1, f_height = 1, f_blend = True,
                 f_dispose = True, f_delay = Some 40\<rparr>]\<rparr>" "\<lambda>n. Inr [1, 2, 3, 255]"
      "\<lambda>n. [1, 2, 3, 255]" 7 "CHR ''7''" 3 13]
  by (simp add: upt_conv_Cons digit_char_def char_of_def bit_Suc_0_iff)

text \<open>
  The claim C8 of a fixed width of five digits fails from frame 100000 on: its index has
  six digits, and its name sorts before the name of frame 99999.
\<close>

theorem frame_index_width_counterexample:
  "frameIndex 100000 = ''100000'' \<and> length (frameIndex 100000) = 6
   \<and> outPath 100000 < outPath 99999"
  by (simp add: outPath_def frameIndex_def padStart_def toString.simps digit_char_def char_of_def
      bit_Suc_0_iff)

end
